theory Spec2Isabelle
  imports Main "HOL-Library.Multiset" "HOL-Library.Product_Lexorder"
begin

section \<open>Vectors, errors and the compressed-row pattern\<close>

text \<open>
  A value of the C++ type \<open>int\<close> is an \<open>int\<close> within the 32-bit range.  Where the source
  multiplies two of them, or adds to such a product, the result is written \<open>int32 (...)\<close>,
  the two's complement value that the 32-bit targets of the library compute.  A counter
  \<open>i + 1\<close> below the size of a vector and a size \<open>nrow + 1\<close> are left as they are: they leave
  the range only for \<open>nrow = 2^31 - 1\<close>.  A \<open>std::vector<int>\<close> is an \<open>int list\<close>.  Every
  \<open>throw\<close>, failed \<open>casadi_assert\<close> and \<open>casadi_error\<close> of \<open>sparsity_tools.cpp\<close> is a
  constructor of \<open>error\<close>, named after the function that raises it; \<open>InvalidArgument\<close> is
  the error that the spec gives to the constructors that are not among the sources.
  \<open>UndefinedBehaviour\<close> stands for what the source leaves undefined: an unchecked subscript
  \<open>v[i]\<close> out of range, a vector of negative size, a division by zero.
\<close>

datatype error =
    InvalidArgument
  | TrilNegative
  | DiagNegative
  | BandNegative
  | BandPosition
  | BandedNotImplemented
  | RowcolOutOfRange
  | NZLengths
  | NZNotMonotone
  | NZOutOfRange
  | ReshapeNumel
  | TripletLengths
  | TripletRowBounds
  | TripletNotSequential
  | UndefinedBehaviour

text \<open>
  Modelled from the spec: the class \<open>CRSSparsity\<close> is declared in \<open>crs_sparsity.hpp\<close>,
  which is not among the sources.  The data model gives it the two dimensions, the column
  index of every stored nonzero and the row offsets; the fields carry the names of the
  accessors used in \<open>sparsity_tools.cpp\<close>.
\<close>

record CRSSparsity =
  size1 :: int
  size2 :: int
  colRef :: "int list"
  rowindRef :: "int list"

text \<open>
  Modelled from the spec: the constructor \<open>CRSSparsity(nrow, ncol, col, rowind)\<close> stores its
  four arguments.
\<close>

definition CRSSparsity_new :: "int \<Rightarrow> int \<Rightarrow> int list \<Rightarrow> int list \<Rightarrow> CRSSparsity" where
  "CRSSparsity_new nrow ncol col rowind =
     \<lparr>size1 = nrow, size2 = ncol, colRef = col, rowindRef = rowind\<rparr>"

text \<open>The value of a 32-bit \<open>int\<close> computation whose exact result is \<open>x\<close>.\<close>

definition int32 :: "int \<Rightarrow> int" where
  "int32 x = (x + 2 ^ 31) mod 2 ^ 32 - 2 ^ 31"

text \<open>\<open>size()\<close> is the number of stored nonzeros, \<open>numel()\<close> the number of elements, the
  product of the two dimensions as an \<open>int\<close>.\<close>

definition sp_size :: "CRSSparsity \<Rightarrow> int" where
  "sp_size a = int (length (colRef a))"

definition numel :: "CRSSparsity \<Rightarrow> int" where
  "numel a = int32 (size1 a * size2 a)"

text \<open>
  The invariant of the data model: \<open>nrow + 1\<close> row offsets that start at zero, never
  decrease and end at the number of stored nonzeros, and every column index within
  \<open>[0, ncol)\<close>.
\<close>

definition invariant :: "CRSSparsity \<Rightarrow> bool" where
  "invariant a \<longleftrightarrow>
     0 \<le> size1 a \<and> int (length (rowindRef a)) = size1 a + 1 \<and>
     sorted (rowindRef a) \<and> rowindRef a ! 0 = 0 \<and>
     rowindRef a ! nat (size1 a) = int (length (colRef a)) \<and>
     (\<forall>c \<in> set (colRef a). 0 \<le> c \<and> c < size2 a)"

text \<open>\<open>std::vector<int> v(n, x)\<close>; a negative \<open>n\<close> has no defined result.\<close>

definition vector :: "int \<Rightarrow> int \<Rightarrow> error + int list" where
  "vector n x = (if n < 0 then Inl UndefinedBehaviour else Inr (replicate (nat n) x))"

text \<open>The unchecked read \<open>v[i]\<close> and write \<open>v[i] = x\<close>.\<close>

definition load :: "int list \<Rightarrow> int \<Rightarrow> error + int" where
  "load v i = (if 0 \<le> i \<and> i < int (length v) then Inr (v ! nat i) else Inl UndefinedBehaviour)"

definition store :: "int list \<Rightarrow> int \<Rightarrow> int \<Rightarrow> error + int list" where
  "store v i x =
     (if 0 \<le> i \<and> i < int (length v) then Inr (v[nat i := x]) else Inl UndefinedBehaviour)"

text \<open>
  The checked write \<open>v.at(i) = x\<close> throws \<open>std::out_of_range\<close>; the two functions that use
  it catch the exception and raise their own error \<open>e\<close>.
\<close>

definition store_at :: "error \<Rightarrow> int list \<Rightarrow> int \<Rightarrow> int \<Rightarrow> error + int list" where
  "store_at e v i x = (if 0 \<le> i \<and> i < int (length v) then Inr (v[nat i := x]) else Inl e)"

text \<open>A counted loop \<open>for (i = 0; i < n; ++i)\<close> runs its body on \<open>upto_n n\<close> in order and
  stops at the first error.\<close>

definition upto_n :: "int \<Rightarrow> int list" where
  "upto_n n = map int [0..<nat n]"

fun for_each :: "('a \<Rightarrow> 's \<Rightarrow> error + 's) \<Rightarrow> 'a list \<Rightarrow> 's \<Rightarrow> error + 's" where
  "for_each body [] s = Inr s"
| "for_each body (x # xs) s =
     (case body x s of Inl e \<Rightarrow> Inl e | Inr s' \<Rightarrow> for_each body xs s')"

text \<open>Integer division and remainder of C++ truncate towards zero.\<close>

definition cdiv :: "int \<Rightarrow> int \<Rightarrow> int" where
  "cdiv a b = sgn a * sgn b * (\<bar>a\<bar> div \<bar>b\<bar>)"

definition cmod :: "int \<Rightarrow> int \<Rightarrow> int" where
  "cmod a b = a - b * cdiv a b"

section \<open>The basic constructors\<close>

subsection \<open>\<open>sp_dense\<close> and \<open>sp_sparse\<close>\<close>

text \<open>
  Modelled from the spec: the constructor \<open>CRSSparsity(nrow, ncol, dense)\<close> that both
  functions call is not among the sources.  The spec gives the dense constructor
  non-negative dimensions, else an invalid argument, and the shared step of all constructors,
  row offsets that are the prefix sums of the nonzeros per row.  The dense pattern stores
  every column of every row; with \<open>dense = false\<close> the pattern stores nothing.  A row offset is
  an \<open>int\<close>.
\<close>

definition CRSSparsity_dense :: "int \<Rightarrow> int \<Rightarrow> bool \<Rightarrow> error + CRSSparsity" where
  "CRSSparsity_dense nrow ncol dense =
     (if nrow < 0 \<or> ncol < 0 then Inl InvalidArgument
      else if dense then
        Inr (CRSSparsity_new nrow ncol (concat (replicate (nat nrow) (upto_n ncol)))
               (map (\<lambda>i. int32 (i * ncol)) (upto_n (nrow + 1))))
      else Inr (CRSSparsity_new nrow ncol [] (replicate (nat (nrow + 1)) 0)))"

definition sp_dense :: "int \<Rightarrow> int \<Rightarrow> error + CRSSparsity" where
  "sp_dense n m = CRSSparsity_dense n m True"

definition sp_sparse :: "int \<Rightarrow> int \<Rightarrow> error + CRSSparsity" where
  "sp_sparse n m = CRSSparsity_dense n m False"

subsection \<open>\<open>sp_tril\<close>\<close>

text \<open>The first loop of \<open>sp_tril\<close>: \<open>col[i] = t++; if (t > c) { t = 0; c++; }\<close>.\<close>

definition tril_col_body :: "int \<Rightarrow> int list \<times> int \<times> int \<Rightarrow> error + int list \<times> int \<times> int" where
  "tril_col_body i s =
     (case s of (col, t, c) \<Rightarrow>
        (case store col i t of
           Inl e \<Rightarrow> Inl e
         | Inr col' \<Rightarrow> if t + 1 > c then Inr (col', 0, c + 1) else Inr (col', t + 1, c)))"

text \<open>The second loop, for \<open>i = 1 .. n\<close>: \<open>rowind[i] = rowind[i-1] + 1 + (c++)\<close>.  The sum
  grows to \<open>n * (n + 1) / 2\<close>.\<close>

definition tril_rowind_body :: "int \<Rightarrow> int list \<times> int \<Rightarrow> error + int list \<times> int" where
  "tril_rowind_body i s =
     (case s of (rowind, c) \<Rightarrow>
        (case load rowind (i - 1) of
           Inl e \<Rightarrow> Inl e
         | Inr p \<Rightarrow>
            (case store rowind i (int32 (p + 1 + c)) of
               Inl e \<Rightarrow> Inl e
             | Inr rowind' \<Rightarrow> Inr (rowind', c + 1))))"

definition sp_tril :: "int \<Rightarrow> error + CRSSparsity" where
  "sp_tril n =
     (if n < 0 then Inl TrilNegative
      else
        (case vector (cdiv (int32 (n * (n + 1))) 2) 0 of
           Inl e \<Rightarrow> Inl e
         | Inr col0 \<Rightarrow>
            (case for_each tril_col_body (upto_n (cdiv (int32 (n * (n + 1))) 2)) (col0, 0, 0) of
               Inl e \<Rightarrow> Inl e
             | Inr (col, t, c) \<Rightarrow>
                (case vector (n + 1) 0 of
                   Inl e \<Rightarrow> Inl e
                 | Inr rowind0 \<Rightarrow>
                    (case for_each tril_rowind_body (map (\<lambda>i. i + 1) (upto_n n)) (rowind0, 0) of
                       Inl e \<Rightarrow> Inl e
                     | Inr (rowind, c') \<Rightarrow> Inr (CRSSparsity_new n n col rowind))))))"

subsection \<open>\<open>sp_diag\<close>\<close>

definition diag_col_body :: "int \<Rightarrow> int list \<Rightarrow> error + int list" where
  "diag_col_body i col = store col i i"

text \<open>\<open>std::copy(col.begin(), col.end(), rowind.begin())\<close> overwrites the front of
  \<open>rowind\<close>, which is longer than \<open>col\<close>.\<close>

definition copy_front :: "int list \<Rightarrow> int list \<Rightarrow> int list" where
  "copy_front src dst = src @ drop (length src) dst"

definition sp_diag :: "int \<Rightarrow> error + CRSSparsity" where
  "sp_diag n =
     (if \<not> n \<ge> 0 then Inl DiagNegative
      else
        (case vector n 0 of
           Inl e \<Rightarrow> Inl e
         | Inr col0 \<Rightarrow>
            (case for_each diag_col_body (upto_n n) col0 of
               Inl e \<Rightarrow> Inl e
             | Inr col \<Rightarrow>
                (case vector (n + 1) 0 of
                   Inl e \<Rightarrow> Inl e
                 | Inr rowind0 \<Rightarrow>
                    (case store (copy_front col rowind0) n n of
                       Inl e \<Rightarrow> Inl e
                     | Inr rowind \<Rightarrow> Inr (CRSSparsity_new n n col rowind))))))"

subsection \<open>\<open>sp_band\<close> and \<open>sp_banded\<close>\<close>

definition band_col_body :: "int \<Rightarrow> int \<Rightarrow> int list \<Rightarrow> error + int list" where
  "band_col_body offset i col = store col i (i + offset)"

definition band_rowind_body :: "int \<Rightarrow> int \<Rightarrow> int \<Rightarrow> int list \<Rightarrow> error + int list" where
  "band_rowind_body offset nc i rowind = store rowind i (max (min (i + offset) nc) 0)"

definition sp_band :: "int \<Rightarrow> int \<Rightarrow> error + CRSSparsity" where
  "sp_band n p =
     (if \<not> n \<ge> 0 then Inl BandNegative
      else if \<not> (if p < 0 then - p else p) < n then Inl BandPosition
      else
        (let nc = n - (if p < 0 then - p else p) in
           (case vector nc 0 of
              Inl e \<Rightarrow> Inl e
            | Inr col0 \<Rightarrow>
               (case for_each (band_col_body (max p 0)) (upto_n nc) col0 of
                  Inl e \<Rightarrow> Inl e
                | Inr col \<Rightarrow>
                   (case vector (n + 1) 0 of
                      Inl e \<Rightarrow> Inl e
                    | Inr rowind0 \<Rightarrow>
                       (case for_each (band_rowind_body (min p 0) nc) (upto_n (n + 1)) rowind0 of
                          Inl e \<Rightarrow> Inl e
                        | Inr rowind \<Rightarrow> Inr (CRSSparsity_new n n col rowind)))))))"

definition sp_banded :: "int \<Rightarrow> int \<Rightarrow> error + CRSSparsity" where
  "sp_banded n p = Inl BandedNotImplemented"

subsection \<open>\<open>sp_rowcol\<close> and \<open>sp_NZ\<close>\<close>

text \<open>
  The loop \<open>while (z < bound) rowind.at(++z) = cnt\<close>, shared by both functions.  The
  exception of \<open>at\<close> leaves the \<open>try\<close> block, where it becomes the error \<open>e\<close>.
\<close>

function fill_at :: "error \<Rightarrow> int \<Rightarrow> int \<Rightarrow> int list \<times> int \<Rightarrow> error + int list \<times> int" where
  "fill_at e bound cnt (rowind, z) =
     (if z < bound then
        (case store_at e rowind (z + 1) cnt of
           Inl x \<Rightarrow> Inl x
         | Inr rowind' \<Rightarrow> fill_at e bound cnt (rowind', z + 1))
      else Inr (rowind, z))"
  by pat_completeness auto
termination
  by (relation "measure (\<lambda>(e, bound, cnt, rowind, z). nat (bound - z))") auto

text \<open>The body of the loop over \<open>k\<close> in \<open>sp_rowcol\<close>; \<open>r\<close> is \<open>row[k]\<close> and \<open>csize\<close> is
  \<open>col.size()\<close>.\<close>

definition rowcol_body :: "int \<Rightarrow> int \<Rightarrow> int list \<times> int \<times> int \<Rightarrow> error + int list \<times> int \<times> int" where
  "rowcol_body csize r s =
     (case s of (rowind, cnt, z) \<Rightarrow>
        (case fill_at RowcolOutOfRange r cnt (rowind, z) of
           Inl e \<Rightarrow> Inl e
         | Inr (rowind', z') \<Rightarrow>
            (case store_at RowcolOutOfRange rowind' (r + 1) (cnt + csize) of
               Inl e \<Rightarrow> Inl e
             | Inr rowind'' \<Rightarrow> Inr (rowind'', cnt + csize, z'))))"

definition sp_rowcol :: "int list \<Rightarrow> int list \<Rightarrow> int \<Rightarrow> int \<Rightarrow> error + CRSSparsity" where
  "sp_rowcol row col nrow ncol =
     (case vector (nrow + 1) 0 of
        Inl e \<Rightarrow> Inl e
      | Inr rowind0 \<Rightarrow>
         (let col_new = concat (replicate (length row) col) in
            (case store rowind0 0 0 of
               Inl e \<Rightarrow> Inl e
             | Inr rowind1 \<Rightarrow>
                (case for_each (rowcol_body (int (length col))) row (rowind1, 0, 0) of
                   Inl e \<Rightarrow> Inl e
                 | Inr (rowind2, cnt, z) \<Rightarrow>
                    (case fill_at RowcolOutOfRange nrow cnt (rowind2, z) of
                       Inl e \<Rightarrow> Inl e
                     | Inr (rowind, z') \<Rightarrow> Inr (CRSSparsity_new nrow ncol col_new rowind))))))"

text \<open>The body of the loop over \<open>k\<close> in \<open>sp_NZ\<close>: the second write stores \<open>cnt\<close> and
  then increments it.\<close>

definition NZ_body :: "int \<Rightarrow> int list \<times> int \<times> int \<Rightarrow> error + int list \<times> int \<times> int" where
  "NZ_body r s =
     (case s of (rowind, cnt, z) \<Rightarrow>
        (case fill_at NZOutOfRange r cnt (rowind, z) of
           Inl e \<Rightarrow> Inl e
         | Inr (rowind', z') \<Rightarrow>
            (case store_at NZOutOfRange rowind' (r + 1) cnt of
               Inl e \<Rightarrow> Inl e
             | Inr rowind'' \<Rightarrow> Inr (rowind'', cnt + 1, z'))))"

definition sp_NZ :: "int list \<Rightarrow> int list \<Rightarrow> int \<Rightarrow> int \<Rightarrow> bool \<Rightarrow> error + CRSSparsity" where
  "sp_NZ row col nrow ncol is_monotone =
     (if \<not> length row = length col then Inl NZLengths
      else if is_monotone = False then Inl NZNotMonotone
      else
        (case vector (nrow + 1) 0 of
           Inl e \<Rightarrow> Inl e
         | Inr rowind0 \<Rightarrow>
            (case store rowind0 0 0 of
               Inl e \<Rightarrow> Inl e
             | Inr rowind1 \<Rightarrow>
                (case for_each NZ_body row (rowind1, 0, 0) of
                   Inl e \<Rightarrow> Inl e
                 | Inr (rowind2, cnt, z) \<Rightarrow>
                    (case fill_at NZOutOfRange nrow cnt (rowind2, z) of
                       Inl e \<Rightarrow> Inl e
                     | Inr (rowind, z') \<Rightarrow> Inr (CRSSparsity_new nrow ncol col rowind))))))"

section \<open>Row indices, reshape and the lower triangle\<close>

text \<open>
  Modelled from the spec: the method \<open>getRow\<close> of \<open>CRSSparsity\<close> is not among the sources.
  It gives the row index of every stored nonzero, in storage order: row \<open>r\<close> owns the
  nonzeros from \<open>rowind[r]\<close> up to \<open>rowind[r+1]\<close>.  Without \<open>nrow + 1\<close> row offsets the
  reads have no defined result.
\<close>

definition getRow :: "CRSSparsity \<Rightarrow> error + int list" where
  "getRow a =
     (if int (length (rowindRef a)) = size1 a + 1
      then Inr (concat (map (\<lambda>r. replicate (nat (rowindRef a ! Suc r - rowindRef a ! r)) (int r))
                  [0..<nat (size1 a)]))
      else Inl UndefinedBehaviour)"

text \<open>The loop of \<open>reshape\<close>: \<open>z = col[k] + row[k] * a.size2()\<close>, then \<open>z / m\<close> and
  \<open>z % m\<close>.  The division has no defined result for \<open>m = 0\<close> and for the quotient
  \<open>- 2^31 / - 1\<close>, which is not an \<open>int\<close>.\<close>

definition reshape_body ::
  "int list \<Rightarrow> int list \<Rightarrow> int \<Rightarrow> int \<Rightarrow> int \<Rightarrow> int list \<times> int list \<Rightarrow> error + int list \<times> int list" where
  "reshape_body row col s2 m k s =
     (case s of (row_new, col_new) \<Rightarrow>
        (case load row k of
           Inl e \<Rightarrow> Inl e
         | Inr i \<Rightarrow>
            (case load col k of
               Inl e \<Rightarrow> Inl e
             | Inr j \<Rightarrow>
                (let z = int32 (j + int32 (i * s2)) in
                   if m = 0 \<or> (z = - (2 ^ 31) \<and> m = - 1) then Inl UndefinedBehaviour
                   else
                     (case store row_new k (cdiv z m) of
                        Inl e \<Rightarrow> Inl e
                      | Inr row_new' \<Rightarrow>
                         (case store col_new k (cmod z m) of
                            Inl e \<Rightarrow> Inl e
                          | Inr col_new' \<Rightarrow> Inr (row_new', col_new')))))))"

definition reshape :: "CRSSparsity \<Rightarrow> int \<Rightarrow> int \<Rightarrow> error + CRSSparsity" where
  "reshape a n m =
     (if \<not> numel a = int32 (n * m) then Inl ReshapeNumel
      else
        (case getRow a of
           Inl e \<Rightarrow> Inl e
         | Inr row \<Rightarrow>
            (case vector (sp_size a) 0 of
               Inl e \<Rightarrow> Inl e
             | Inr row_new0 \<Rightarrow>
                (case vector (sp_size a) 0 of
                   Inl e \<Rightarrow> Inl e
                 | Inr col_new0 \<Rightarrow>
                    (case for_each (reshape_body row (colRef a) (size2 a) m) (upto_n (sp_size a))
                            (row_new0, col_new0) of
                       Inl e \<Rightarrow> Inl e
                     | Inr (row_new, col_new) \<Rightarrow> sp_NZ row_new col_new n m True)))))"

definition vec :: "CRSSparsity \<Rightarrow> error + CRSSparsity" where
  "vec a = reshape a (numel a) 1"

text \<open>The counting loop of \<open>lowerSparsity\<close> and \<open>lowerNZ\<close>: \<open>n += row[k] >= col[k]\<close>.\<close>

definition lower_count_body :: "int list \<Rightarrow> int list \<Rightarrow> int \<Rightarrow> int \<Rightarrow> error + int" where
  "lower_count_body row col k n =
     (case load row k of
        Inl e \<Rightarrow> Inl e
      | Inr r \<Rightarrow>
         (case load col k of
            Inl e \<Rightarrow> Inl e
          | Inr c \<Rightarrow> Inr (n + (if r \<ge> c then 1 else 0))))"

definition lowerSparsity_body ::
  "int list \<Rightarrow> int list \<Rightarrow> int \<Rightarrow> int list \<times> int list \<times> int \<Rightarrow> error + int list \<times> int list \<times> int" where
  "lowerSparsity_body row col k s =
     (case s of (new_col, new_row, cnt) \<Rightarrow>
        (case load row k of
           Inl e \<Rightarrow> Inl e
         | Inr r \<Rightarrow>
            (case load col k of
               Inl e \<Rightarrow> Inl e
             | Inr c \<Rightarrow>
                if r \<ge> c then
                  (case store new_col cnt c of
                     Inl e \<Rightarrow> Inl e
                   | Inr new_col' \<Rightarrow>
                      (case store new_row cnt r of
                         Inl e \<Rightarrow> Inl e
                       | Inr new_row' \<Rightarrow> Inr (new_col', new_row', cnt + 1)))
                else Inr (new_col, new_row, cnt))))"

definition lowerSparsity :: "CRSSparsity \<Rightarrow> error + CRSSparsity" where
  "lowerSparsity a =
     (case getRow a of
        Inl e \<Rightarrow> Inl e
      | Inr row \<Rightarrow>
         (case for_each (lower_count_body row (colRef a)) (upto_n (int (length row))) 0 of
            Inl e \<Rightarrow> Inl e
          | Inr n \<Rightarrow>
             (case vector n 0 of
                Inl e \<Rightarrow> Inl e
              | Inr new_col0 \<Rightarrow>
                 (case vector n 0 of
                    Inl e \<Rightarrow> Inl e
                  | Inr new_row0 \<Rightarrow>
                     (case for_each (lowerSparsity_body row (colRef a)) (upto_n (int (length row)))
                             (new_col0, new_row0, 0) of
                        Inl e \<Rightarrow> Inl e
                      | Inr (new_col, new_row, cnt) \<Rightarrow>
                         sp_NZ new_row new_col (size1 a) (size2 a) True)))))"

definition lowerNZ_body :: "int list \<Rightarrow> int list \<Rightarrow> int \<Rightarrow> int list \<times> int \<Rightarrow> error + int list \<times> int" where
  "lowerNZ_body row col k s =
     (case s of (ret, cnt) \<Rightarrow>
        (case load row k of
           Inl e \<Rightarrow> Inl e
         | Inr r \<Rightarrow>
            (case load col k of
               Inl e \<Rightarrow> Inl e
             | Inr c \<Rightarrow>
                if r \<ge> c then
                  (case store ret cnt k of
                     Inl e \<Rightarrow> Inl e
                   | Inr ret' \<Rightarrow> Inr (ret', cnt + 1))
                else Inr (ret, cnt))))"

definition lowerNZ :: "CRSSparsity \<Rightarrow> error + int list" where
  "lowerNZ a =
     (case getRow a of
        Inl e \<Rightarrow> Inl e
      | Inr row \<Rightarrow>
         (case for_each (lower_count_body row (colRef a)) (upto_n (int (length row))) 0 of
            Inl e \<Rightarrow> Inl e
          | Inr n \<Rightarrow>
             (case vector n 0 of
                Inl e \<Rightarrow> Inl e
              | Inr ret0 \<Rightarrow>
                 (case for_each (lowerNZ_body row (colRef a)) (upto_n (int (length row))) (ret0, 0) of
                    Inl e \<Rightarrow> Inl e
                  | Inr (ret, cnt) \<Rightarrow> Inr ret))))"

section \<open>Assembly from triplets\<close>

subsection \<open>Methods of the pattern used by \<open>sp_triplet\<close>\<close>

text \<open>
  Modelled from the spec: \<open>columnsSequential\<close>, \<open>transpose\<close> and \<open>removeDuplicates\<close> are
  methods of \<open>CRSSparsity\<close>, not among the sources.

  A pattern is sequential when, within each row, the column indices are strictly
  increasing; the non-strict variant allows equal neighbours.  Without defined row indices
  the answer is \<open>False\<close>.
\<close>

definition columnsSequential :: "CRSSparsity \<Rightarrow> bool \<Rightarrow> bool" where
  "columnsSequential a strictly =
     (case getRow a of
        Inl e \<Rightarrow> False
      | Inr row \<Rightarrow>
         sorted_wrt (\<lambda>p q. fst p = fst q \<longrightarrow> (if strictly then snd p < snd q else snd p \<le> snd q))
           (zip row (colRef a)))"

text \<open>
  The histogram of a list of keys, prefix-summed: entry \<open>i\<close> is the number of keys below
  \<open>i\<close>, for \<open>i = 0 .. nb\<close>.
\<close>

definition offsets :: "int list \<Rightarrow> int \<Rightarrow> int list" where
  "offsets keys nb = map (\<lambda>i. int (length (filter (\<lambda>x. x < int i) keys))) [0..<Suc (nat nb)]"

text \<open>
  Scattering into \<open>nb\<close> buckets with one cursor per bucket: bucket \<open>b\<close> receives, in the
  order of the scan, the items whose key is \<open>b\<close>, and the buckets follow each other.
\<close>

definition bucket_sort :: "nat \<Rightarrow> ('a \<Rightarrow> int) \<Rightarrow> 'a list \<Rightarrow> 'a list" where
  "bucket_sort nb key xs = concat (map (\<lambda>b. filter (\<lambda>x. key x = int b) xs) [0..<nb])"

text \<open>
  The transpose has a row for every column of \<open>a\<close>.  Its row offsets are the histogram of
  the columns of \<open>a\<close>; the nonzeros of \<open>a\<close>, visited in storage order, are scattered into the
  bucket of their column, and the mapping records the storage index in \<open>a\<close> of every
  nonzero of the result.  A column outside \<open>[0, ncol)\<close> has no bucket.
\<close>

definition transpose :: "CRSSparsity \<Rightarrow> error + CRSSparsity \<times> int list" where
  "transpose a =
     (case getRow a of
        Inl e \<Rightarrow> Inl e
      | Inr row \<Rightarrow>
         if length row \<noteq> length (colRef a) \<or> list_ex (\<lambda>c. c < 0 \<or> size2 a \<le> c) (colRef a)
         then Inl UndefinedBehaviour
         else
           (let mapping = bucket_sort (nat (size2 a)) (\<lambda>k. colRef a ! nat k) (upto_n (sp_size a))
            in Inr (CRSSparsity_new (size2 a) (size1 a) (map (\<lambda>k. row ! nat k) mapping)
                      (offsets (colRef a) (size2 a)),
                    mapping)))"

text \<open>
  Coalescing keeps, of every run of equal (row, column) pairs that follow each other, the
  first entry with its mapping; nothing is summed.
\<close>

fun coalesce :: "(int \<times> int \<times> int) list \<Rightarrow> (int \<times> int \<times> int) list" where
  "coalesce [] = []"
| "coalesce [x] = [x]"
| "coalesce (x # y # zs) =
     (if fst x = fst y \<and> fst (snd x) = fst (snd y) then coalesce (x # zs) else x # coalesce (y # zs))"

definition removeDuplicates :: "CRSSparsity \<Rightarrow> int list \<Rightarrow> error + CRSSparsity \<times> int list" where
  "removeDuplicates a mapping =
     (case getRow a of
        Inl e \<Rightarrow> Inl e
      | Inr row \<Rightarrow>
         if length row \<noteq> length (colRef a) \<or> length mapping \<noteq> length (colRef a)
         then Inl UndefinedBehaviour
         else
           (let kept = coalesce (zip row (zip (colRef a) mapping))
            in Inr (CRSSparsity_new (size1 a) (size2 a) (map (\<lambda>t. fst (snd t)) kept)
                      (offsets (map fst kept) (size1 a)),
                    map (\<lambda>t. snd (snd t)) kept)))"

subsection \<open>\<open>sp_triplet\<close>\<close>

text \<open>The first loop: \<open>casadi_assert_message(*it < nrow, ...)\<close>, then
  \<open>rowcount[*it + 1]++\<close>.\<close>

definition triplet_count_body :: "int \<Rightarrow> int \<Rightarrow> int list \<Rightarrow> error + int list" where
  "triplet_count_body nrow r rowcount =
     (if \<not> r < nrow then Inl TripletRowBounds
      else
        (case load rowcount (r + 1) of
           Inl e \<Rightarrow> Inl e
         | Inr x \<Rightarrow> store rowcount (r + 1) (x + 1)))"

text \<open>The cumulative sum: \<open>rowcount[i+1] += rowcount[i]\<close>.\<close>

definition cumsum_body :: "int \<Rightarrow> int list \<Rightarrow> error + int list" where
  "cumsum_body i rowcount =
     (case load rowcount (i + 1) of
        Inl e \<Rightarrow> Inl e
      | Inr x \<Rightarrow>
         (case load rowcount i of
            Inl e \<Rightarrow> Inl e
          | Inr y \<Rightarrow> store rowcount (i + 1) (x + y)))"

text \<open>\<open>v.resize(n)\<close> keeps the front of \<open>v\<close> and pads with zeros.\<close>

definition resize :: "int list \<Rightarrow> nat \<Rightarrow> int list" where
  "resize v n = take n v @ replicate (n - length v) 0"

text \<open>The scatter loop: \<open>newk = rowcount[row[k]]++; mapping[newk] = k;
  newcol[newk] = col[k]\<close>.\<close>

definition scatter_body ::
  "int list \<Rightarrow> int list \<Rightarrow> int \<Rightarrow> int list \<times> int list \<times> int list \<Rightarrow> error + int list \<times> int list \<times> int list" where
  "scatter_body row col k s =
     (case s of (rowcount, mapping, newcol) \<Rightarrow>
        (case load row k of
           Inl e \<Rightarrow> Inl e
         | Inr r \<Rightarrow>
            (case load rowcount r of
               Inl e \<Rightarrow> Inl e
             | Inr newk \<Rightarrow>
                (case store rowcount r (newk + 1) of
                   Inl e \<Rightarrow> Inl e
                 | Inr rowcount' \<Rightarrow>
                    (case store mapping newk k of
                       Inl e \<Rightarrow> Inl e
                     | Inr mapping' \<Rightarrow>
                        (case load col k of
                           Inl e \<Rightarrow> Inl e
                         | Inr c \<Rightarrow>
                            (case store newcol newk c of
                               Inl e \<Rightarrow> Inl e
                             | Inr newcol' \<Rightarrow> Inr (rowcount', mapping', newcol'))))))))"

text \<open>The loops \<open>*it = mapping[*it]\<close> over a vector \<open>v\<close>, at position \<open>i\<close>.\<close>

definition compose_body :: "int list \<Rightarrow> int \<Rightarrow> int list \<Rightarrow> error + int list" where
  "compose_body mapping i v =
     (case load v i of
        Inl e \<Rightarrow> Inl e
      | Inr x \<Rightarrow>
         (case load mapping x of
            Inl e \<Rightarrow> Inl e
          | Inr y \<Rightarrow> store v i y))"

text \<open>Lines 301 to 317: transpose twice if the columns must be sorted.\<close>

definition triplet_sort_columns ::
  "bool \<Rightarrow> CRSSparsity \<Rightarrow> int list \<Rightarrow> error + CRSSparsity \<times> int list" where
  "triplet_sort_columns columns_are_sorted ret mapping =
     (if \<not> columns_are_sorted \<and> \<not> columnsSequential ret False then
        (case transpose ret of
           Inl e \<Rightarrow> Inl e
         | Inr (ret_trans, trans_mapping0) \<Rightarrow>
            (case for_each (compose_body mapping) (upto_n (int (length trans_mapping0))) trans_mapping0 of
               Inl e \<Rightarrow> Inl e
             | Inr trans_mapping \<Rightarrow>
                (case transpose ret_trans of
                   Inl e \<Rightarrow> Inl e
                 | Inr (ret', mapping0) \<Rightarrow>
                    (case for_each (compose_body trans_mapping) (upto_n (int (length mapping0))) mapping0 of
                       Inl e \<Rightarrow> Inl e
                     | Inr mapping' \<Rightarrow> Inr (ret', mapping')))))
      else Inr (ret, mapping))"

text \<open>Lines 320 to 324: remove duplicates if the columns are not strictly sorted.\<close>

definition triplet_remove_duplicates ::
  "bool \<Rightarrow> CRSSparsity \<Rightarrow> int list \<Rightarrow> error + CRSSparsity \<times> int list" where
  "triplet_remove_duplicates columns_are_sorted ret mapping =
     (if \<not> columns_are_sorted \<and> \<not> columnsSequential ret True then
        (case removeDuplicates ret mapping of
           Inl e \<Rightarrow> Inl e
         | Inr (ret', mapping') \<Rightarrow>
            if \<not> columnsSequential ret' True then Inl TripletNotSequential
            else Inr (ret', mapping'))
      else Inr (ret, mapping))"

text \<open>
  \<open>sp_triplet\<close> with the mapping as an output: \<open>mapping0\<close> is the content of the caller's
  vector on entry.  The pattern \<open>ret\<close> takes a copy of \<open>rowcount\<close> before the scatter loop
  advances the cursors.
\<close>

definition sp_triplet_mapping ::
  "int \<Rightarrow> int \<Rightarrow> int list \<Rightarrow> int list \<Rightarrow> int list \<Rightarrow> bool \<Rightarrow> error + CRSSparsity \<times> int list" where
  "sp_triplet_mapping nrow ncol row col mapping0 columns_are_sorted =
     (if \<not> length row = length col then Inl TripletLengths
      else
        (case vector (nrow + 1) 0 of
           Inl e \<Rightarrow> Inl e
         | Inr rowcount0 \<Rightarrow>
            (case for_each (triplet_count_body nrow) row rowcount0 of
               Inl e \<Rightarrow> Inl e
             | Inr rowcount1 \<Rightarrow>
                (case for_each cumsum_body (upto_n nrow) rowcount1 of
                   Inl e \<Rightarrow> Inl e
                 | Inr rowcount \<Rightarrow>
                    (case for_each (scatter_body row col) (upto_n (int (length row)))
                            (rowcount, resize mapping0 (length col), col) of
                       Inl e \<Rightarrow> Inl e
                     | Inr (rowcount', mapping, newcol) \<Rightarrow>
                        (case triplet_sort_columns columns_are_sorted
                                (CRSSparsity_new nrow ncol newcol rowcount) mapping of
                           Inl e \<Rightarrow> Inl e
                         | Inr (ret, mapping') \<Rightarrow>
                            triplet_remove_duplicates columns_are_sorted ret mapping'))))))"

text \<open>The overload without a mapping passes an empty vector.\<close>

definition sp_triplet :: "int \<Rightarrow> int \<Rightarrow> int list \<Rightarrow> int list \<Rightarrow> bool \<Rightarrow> error + CRSSparsity" where
  "sp_triplet n m row col columns_are_sorted =
     (case sp_triplet_mapping n m row col [] columns_are_sorted of
        Inl e \<Rightarrow> Inl e
      | Inr (ret, mapping) \<Rightarrow> Inr ret)"

section \<open>The row marks of \<open>casadi_qr\<close>\<close>












subsection \<open>The algorithm in the words of the spec\<close>










section \<open>Notions used in the proofs\<close>

text \<open>The loop bodies of \<open>sp_rowcol\<close> and \<open>sp_NZ\<close> differ in the value \<open>v cnt\<close> they
  store at \<open>row[k] + 1\<close> and in the increment \<open>d\<close> of the counter.\<close>

definition fill_body :: "error \<Rightarrow> (int \<Rightarrow> int) \<Rightarrow> int \<Rightarrow> int \<Rightarrow> int list \<times> int \<times> int \<Rightarrow> error + int list \<times> int \<times> int" where
  "fill_body e v d r s =
     (case s of (rowind, cnt, z) \<Rightarrow>
        (case fill_at e r cnt (rowind, z) of
           Inl x \<Rightarrow> Inl x
         | Inr (rowind', z') \<Rightarrow>
            (case store_at e rowind' (r + 1) (v cnt) of
               Inl x \<Rightarrow> Inl x
             | Inr rowind'' \<Rightarrow> Inr (rowind'', cnt + d, z'))))"

text \<open>The row index of every stored entry, read off the first \<open>n\<close> row offsets.\<close>

definition row_blocks :: "int list \<Rightarrow> nat \<Rightarrow> int list" where
  "row_blocks rowind n =
     concat (map (\<lambda>r. replicate (nat (rowind ! Suc r - rowind ! r)) (int r)) [0..<n])"

text \<open>A (row, column) pair on or below the diagonal.\<close>

definition is_lower :: "int \<times> int \<Rightarrow> bool" where
  "is_lower p \<longleftrightarrow> fst p \<ge> snd p"

text \<open>The first slot of bucket \<open>b\<close> in a counting sort of \<open>row\<close>.\<close>

definition bucket_start :: "int list \<Rightarrow> nat \<Rightarrow> nat" where
  "bucket_start row b = length (filter (\<lambda>x. x < int b) row)"

text \<open>The positions below \<open>k\<close> whose row is \<open>b\<close>, in order.\<close>

definition bucket_items :: "int list \<Rightarrow> nat \<Rightarrow> nat \<Rightarrow> nat list" where
  "bucket_items row b k = filter (\<lambda>j. row ! j = int b) [0..<k]"

text \<open>The state of the scatter loop of \<open>sp_triplet\<close> after \<open>k\<close> triplets.\<close>

definition scatter_inv ::
  "int \<Rightarrow> int list \<Rightarrow> int list \<Rightarrow> nat \<Rightarrow> int list \<times> int list \<times> int list \<Rightarrow> bool" where
  "scatter_inv nrow row col k s =
     (case s of (rcur, mp, nc) \<Rightarrow>
        length rcur = Suc (nat nrow) \<and> length mp = length row \<and> length nc = length row \<and>
        (\<forall>b < nat nrow. rcur ! b = int (bucket_start row b + length (bucket_items row b k))) \<and>
        (\<forall>b < nat nrow. \<forall>t < length (bucket_items row b k).
            mp ! (bucket_start row b + t) = int (bucket_items row b k ! t) \<and>
            nc ! (bucket_start row b + t) = col ! (bucket_items row b k ! t)))"

text \<open>The triplet positions in the order in which the scatter loop stores them.\<close>

definition scattered :: "int \<Rightarrow> int list \<Rightarrow> int list" where
  "scattered nrow row = bucket_sort (nat nrow) (\<lambda>k. row ! nat k) (upto_n (int (length row)))"

text \<open>A pattern \<open>ret\<close> that holds the triplets at the positions \<open>M\<close>, rows in order.\<close>

definition tracked :: "int \<Rightarrow> int \<Rightarrow> int list \<Rightarrow> int list \<Rightarrow> CRSSparsity \<Rightarrow> int list \<Rightarrow> bool" where
  "tracked nrow ncol row col ret M \<longleftrightarrow>
     ret = CRSSparsity_new nrow ncol (map (\<lambda>k. col ! nat k) M) (offsets (map (\<lambda>k. row ! nat k) M) nrow) \<and>
     sorted (map (\<lambda>k. row ! nat k) M) \<and>
     (\<forall>k \<in> set M. 0 \<le> k \<and> k < int (length row))"

text \<open>The (row, column) pairs of the triplets at the positions \<open>M\<close>.\<close>

definition pairs_of :: "int list \<Rightarrow> int list \<Rightarrow> int list \<Rightarrow> (int \<times> int) list" where
  "pairs_of row col M = map (\<lambda>k. (row ! nat k, col ! nat k)) M"

text \<open>Column \<open>c\<close> takes the marks from \<open>marks\<close> to \<open>marks'\<close>: every mark is left as it
  was or set to \<open>c\<close>.\<close>

definition frame :: "int \<Rightarrow> int list \<Rightarrow> int list \<Rightarrow> bool" where
  "frame c marks marks' \<longleftrightarrow>
     length marks' = length marks \<and> (\<forall>i < length marks. marks' ! i = marks ! i \<or> marks' ! i = c)"



section \<open>Loops that fill the row offsets\<close>

declare fill_at.simps [simp del]

lemma for_each_append:
  "for_each body (xs @ ys) s =
     (case for_each body xs s of Inl e \<Rightarrow> Inl e | Inr s' \<Rightarrow> for_each body ys s')"
  by (induction xs arbitrary: s) (auto split: sum.splits)

lemma fill_at_ok:
  "- 1 \<le> z \<Longrightarrow> bound < int (length rowind) \<Longrightarrow>
   \<exists>rowind'. fill_at e bound cnt (rowind, z) = Inr (rowind', max z bound) \<and>
      length rowind' = length rowind \<and>
      (\<forall>i < length rowind. rowind' ! i = (if z < int i \<and> int i \<le> bound then cnt else rowind ! i))"
proof (induction e bound cnt "(rowind, z)" arbitrary: rowind z rule: fill_at.induct)
  case (1 e bound cnt rowind z)
  show ?case
  proof (cases "z < bound")
    case False
    then show ?thesis by (subst fill_at.simps) (auto simp: max_def)
  next
    case True
    have st: "store_at e rowind (z + 1) cnt = Inr (rowind[nat (z + 1) := cnt])"
      using True 1(2,3) by (simp add: store_at_def)
    have "\<exists>rowind'. fill_at e bound cnt (rowind[nat (z + 1) := cnt], z + 1) = Inr (rowind', max (z + 1) bound) \<and>
      length rowind' = length (rowind[nat (z + 1) := cnt]) \<and>
      (\<forall>i < length (rowind[nat (z + 1) := cnt]). rowind' ! i = (if z + 1 < int i \<and> int i \<le> bound then cnt else rowind[nat (z + 1) := cnt] ! i))"
      using 1(1)[OF True st] 1(2,3) by simp
    then obtain r' where r': "fill_at e bound cnt (rowind[nat (z + 1) := cnt], z + 1) = Inr (r', max (z + 1) bound)"
      "length r' = length rowind"
      "\<forall>i < length rowind. r' ! i = (if z + 1 < int i \<and> int i \<le> bound then cnt else rowind[nat (z + 1) := cnt] ! i)"
      by auto
    have "fill_at e bound cnt (rowind, z) = Inr (r', max z bound)"
      using True st r'(1) by (subst fill_at.simps) (simp add: max_def)
    moreover have "\<forall>i < length rowind. r' ! i = (if z < int i \<and> int i \<le> bound then cnt else rowind ! i)"
    proof (intro allI impI)
      fix i assume i: "i < length rowind"
      show "r' ! i = (if z < int i \<and> int i \<le> bound then cnt else rowind ! i)"
      proof (cases "int i = z + 1")
        case True
        then have "nat (z + 1) = i" by simp
        with r'(3) i True \<open>z < bound\<close> show ?thesis by auto
      next
        case False
        then have "nat (z + 1) \<noteq> i" using 1(2) by auto
        with r'(3) i False show ?thesis by auto
      qed
    qed
    ultimately show ?thesis using r'(2) by blast
  qed
qed

lemma fill_at_err:
  "- 1 \<le> z \<Longrightarrow> z < int (length rowind) \<Longrightarrow> int (length rowind) \<le> bound \<Longrightarrow>
   fill_at e bound cnt (rowind, z) = Inl e"
proof (induction e bound cnt "(rowind, z)" arbitrary: rowind z rule: fill_at.induct)
  case (1 e bound cnt rowind z)
  have zb: "z < bound" using 1 by simp
  show ?case
  proof (cases "z + 1 < int (length rowind)")
    case True
    then have st: "store_at e rowind (z + 1) cnt = Inr (rowind[nat (z + 1) := cnt])"
      using 1(2) by (simp add: store_at_def)
    have "fill_at e bound cnt (rowind[nat (z + 1) := cnt], z + 1) = Inl e"
      using 1(1)[OF zb st] True 1(2,4) by simp
    then show ?thesis using zb st by (subst fill_at.simps) simp
  next
    case False
    then have "store_at e rowind (z + 1) cnt = Inl e" by (simp add: store_at_def)
    then show ?thesis using zb by (subst fill_at.simps) simp
  qed
qed

lemma rowcol_body_fill: "rowcol_body csize = fill_body RowcolOutOfRange (\<lambda>cnt. cnt + csize) csize"
  by (intro ext) (simp add: rowcol_body_def fill_body_def)

lemma NZ_body_fill: "NZ_body = fill_body NZOutOfRange (\<lambda>cnt. cnt) 1"
  by (intro ext) (simp add: NZ_body_def fill_body_def)

lemma fill_body_ok:
  assumes "int (length rowind) = nrow + 1" "0 \<le> z" "z \<le> nrow" "- 1 \<le> r" "r < nrow"
  shows "\<exists>rw. fill_body e v d r (rowind, cnt, z) = Inr (rw, cnt + d, max z r) \<and>
      length rw = length rowind \<and>
      (\<forall>i < length rowind. rw ! i =
         (if int i = r + 1 then v cnt else if z < int i \<and> int i \<le> r then cnt else rowind ! i))"
proof -
  obtain r1 where r1: "fill_at e r cnt (rowind, z) = Inr (r1, max z r)" "length r1 = length rowind"
    "\<forall>i < length rowind. r1 ! i = (if z < int i \<and> int i \<le> r then cnt else rowind ! i)"
    using fill_at_ok[of z r rowind e cnt] assms by auto
  have st: "store_at e r1 (r + 1) (v cnt) = Inr (r1[nat (r + 1) := v cnt])"
    using assms r1(2) by (simp add: store_at_def)
  have "fill_body e v d r (rowind, cnt, z) = Inr (r1[nat (r + 1) := v cnt], cnt + d, max z r)"
    by (simp add: fill_body_def r1(1) st)
  moreover have "\<forall>i < length rowind. (r1[nat (r + 1) := v cnt]) ! i =
         (if int i = r + 1 then v cnt else if z < int i \<and> int i \<le> r then cnt else rowind ! i)"
  proof (intro allI impI)
    fix i assume i: "i < length rowind"
    show "(r1[nat (r + 1) := v cnt]) ! i =
         (if int i = r + 1 then v cnt else if z < int i \<and> int i \<le> r then cnt else rowind ! i)"
    proof (cases "int i = r + 1")
      case True
      then have "nat (r + 1) = i" by simp
      then show ?thesis using True i r1(2) by simp
    next
      case False
      then have "nat (r + 1) \<noteq> i" using assms(4) by auto
      then show ?thesis using False i r1(3) by simp
    qed
  qed
  ultimately show ?thesis using r1(2) by simp
qed

lemma fill_body_err:
  assumes "int (length rowind) = nrow + 1" "0 \<le> z" "z \<le> nrow" "\<not> (- 1 \<le> r \<and> r < nrow)"
  shows "fill_body e v d r (rowind, cnt, z) = Inl e"
proof (cases "nrow < r")
  case True
  then have "fill_at e r cnt (rowind, z) = Inl e"
    using fill_at_err[of z rowind r e cnt] assms by simp
  then show ?thesis by (simp add: fill_body_def)
next
  case False
  then obtain r1 where r1: "fill_at e r cnt (rowind, z) = Inr (r1, max z r)" "length r1 = length rowind"
    using fill_at_ok[of z r rowind e cnt] assms by auto
  have "store_at e r1 (r + 1) (v cnt) = Inl e"
    using assms False r1(2) by (auto simp: store_at_def)
  then show ?thesis by (simp add: fill_body_def r1(1))
qed

lemma for_each_fill_body_ok:
  assumes "int (length rowind) = nrow + 1" "0 \<le> z" "z \<le> nrow"
    and "\<forall>r \<in> set row. - 1 \<le> r \<and> r < nrow"
  shows "\<exists>rw z'. for_each (fill_body e v d) row (rowind, cnt, z) = Inr (rw, cnt + d * int (length row), z') \<and>
                length rw = length rowind \<and> 0 \<le> z' \<and> z' \<le> nrow"
  using assms
proof (induction row arbitrary: rowind cnt z)
  case Nil
  then show ?case by simp
next
  case (Cons r row)
  have r: "- 1 \<le> r" "r < nrow" using Cons.prems(4) by auto
  obtain rw where rw: "fill_body e v d r (rowind, cnt, z) = Inr (rw, cnt + d, max z r)"
      "length rw = length rowind"
    using fill_body_ok[OF Cons.prems(1-3) r, of e v d cnt] by auto
  have inv: "int (length rw) = nrow + 1" "0 \<le> max z r" "max z r \<le> nrow"
      "\<forall>r \<in> set row. - 1 \<le> r \<and> r < nrow"
    using rw(2) Cons.prems r by auto
  obtain rw' z' where "for_each (fill_body e v d) row (rw, cnt + d, max z r) = Inr (rw', cnt + d + d * int (length row), z')"
    "length rw' = length rw" "0 \<le> z'" "z' \<le> nrow"
    using Cons.IH[OF inv, of "cnt + d"] by auto
  then show ?case using rw by (auto simp: algebra_simps)
qed

lemma for_each_fill_body_err:
  assumes "int (length rowind) = nrow + 1" "0 \<le> z" "z \<le> nrow"
    and "\<not> (\<forall>r \<in> set row. - 1 \<le> r \<and> r < nrow)"
  shows "for_each (fill_body e v d) row (rowind, cnt, z) = Inl e"
  using assms
proof (induction row arbitrary: rowind cnt z)
  case Nil
  then show ?case by simp
next
  case (Cons r row)
  show ?case
  proof (cases "- 1 \<le> r \<and> r < nrow")
    case False
    show ?thesis using fill_body_err[OF Cons.prems(1-3) False] by simp
  next
    case True
    then obtain rw where rw: "fill_body e v d r (rowind, cnt, z) = Inr (rw, cnt + d, max z r)"
      "length rw = length rowind"
      using fill_body_ok[OF Cons.prems(1-3), of r e v d cnt] by auto
    have inv: "int (length rw) = nrow + 1" "0 \<le> max z r" "max z r \<le> nrow"
      "\<not> (\<forall>r \<in> set row. - 1 \<le> r \<and> r < nrow)"
      using rw(2) Cons.prems True by auto
    show ?thesis using Cons.IH[OF inv, of "cnt + d"] rw by simp
  qed
qed

section \<open>Concrete scenarios\<close>

text \<open>
  Claim C8.  \<open>sp_diag(3)\<close> is the 3 by 3 pattern with row offsets \<open>[0,1,2,3]\<close> and column
  indices \<open>[0,1,2]\<close>; \<open>sp_tril(3)\<close> is the 3 by 3 pattern with row offsets \<open>[0,1,3,6]\<close> and
  column indices \<open>[0,0,1,0,1,2]\<close>.
\<close>

theorem sp_diag_tril_3:
  "sp_diag 3 = Inr \<lparr>size1 = 3, size2 = 3, colRef = [0, 1, 2], rowindRef = [0, 1, 2, 3]\<rparr> \<and>
   sp_tril 3 = Inr \<lparr>size1 = 3, size2 = 3, colRef = [0, 0, 1, 0, 1, 2], rowindRef = [0, 1, 3, 6]\<rparr>"
  by code_simp

section \<open>Counted loops and bucket sort\<close>

lemma for_each_upto_invariant:
  assumes "P 0 s0"
    and "\<And>i s. i < n \<Longrightarrow> P i s \<Longrightarrow> \<exists>s'. body (int i) s = Inr s' \<and> P (Suc i) s'"
  shows "\<exists>s'. for_each body (map int [0..<n]) s0 = Inr s' \<and> P n s'"
  using assms(2)
proof (induction n)
  case 0
  then show ?case using assms(1) by simp
next
  case (Suc n)
  then obtain s1 where s1: "for_each body (map int [0..<n]) s0 = Inr s1" "P n s1"
    by (metis less_Suc_eq)
  obtain s2 where "body (int n) s1 = Inr s2" "P (Suc n) s2"
    using Suc.prems[of n s1] s1(2) by auto
  then show ?case using s1 by (simp add: for_each_append)
qed

lemma sorted_filter_split:
  "sorted (map f xs) \<Longrightarrow> filter (\<lambda>x. f x < (b::int)) xs @ filter (\<lambda>x. \<not> f x < b) xs = xs"
proof (induction xs)
  case Nil
  then show ?case by simp
next
  case (Cons x xs)
  show ?case
  proof (cases "f x < b")
    case True
    then show ?thesis using Cons by simp
  next
    case False
    then have "\<forall>y \<in> set xs. \<not> f y < b" using Cons.prems by auto
    then have "filter (\<lambda>x. f x < b) xs = []" "filter (\<lambda>x. \<not> f x < b) xs = xs"
      by (auto simp: filter_empty_conv filter_id_conv)
    then show ?thesis using False by simp
  qed
qed

lemma bucket_sort_Suc:
  "bucket_sort (Suc nb) f xs = bucket_sort nb f xs @ filter (\<lambda>x. f x = int nb) xs"
  by (simp add: bucket_sort_def)

lemma bucket_sort_filter_below:
  "bucket_sort nb f (filter (\<lambda>x. f x < int nb) xs) = bucket_sort nb f xs"
proof -
  have "map (\<lambda>b. filter (\<lambda>x. f x = int b) (filter (\<lambda>x. f x < int nb) xs)) [0..<nb] =
        map (\<lambda>b. filter (\<lambda>x. f x = int b) xs) [0..<nb]"
  proof (rule map_cong[OF refl])
    fix b assume "b \<in> set [0..<nb]"
    then have "b < nb" by simp
    then show "filter (\<lambda>x. f x = int b) (filter (\<lambda>x. f x < int nb) xs) = filter (\<lambda>x. f x = int b) xs"
      unfolding filter_filter by (intro filter_cong refl) auto
  qed
  then show ?thesis unfolding bucket_sort_def by (rule arg_cong)
qed

lemma bucket_sort_sorted_id:
  "sorted (map f xs) \<Longrightarrow> \<forall>x \<in> set xs. 0 \<le> f x \<and> f x < int nb \<Longrightarrow> bucket_sort nb f xs = xs"
proof (induction nb arbitrary: xs)
  case 0
  then show ?case by (cases xs) (auto simp: bucket_sort_def)
next
  case (Suc nb)
  let ?lo = "filter (\<lambda>x. f x < int nb) xs"
  have "sorted (map f ?lo)" using Suc.prems(1) by (simp add: sorted_map sorted_wrt_filter)
  moreover have "\<forall>x \<in> set ?lo. 0 \<le> f x \<and> f x < int nb" using Suc.prems(2) by auto
  ultimately have "bucket_sort nb f ?lo = ?lo" by (rule Suc.IH)
  then have lo: "bucket_sort nb f xs = ?lo" by (simp add: bucket_sort_filter_below)
  have "filter (\<lambda>x. f x = int nb) xs = filter (\<lambda>x. \<not> f x < int nb) xs"
    using Suc.prems(2) by (auto intro!: filter_cong)
  then show ?case using lo sorted_filter_split[OF Suc.prems(1), of "int nb"]
    by (simp add: bucket_sort_Suc)
qed

lemma mset_bucket_sort:
  "\<forall>x \<in> set xs. 0 \<le> f x \<Longrightarrow> mset (bucket_sort nb f xs) = mset (filter (\<lambda>x. f x < int nb) xs)"
proof (induction nb)
  case 0
  then show ?case by (auto simp: bucket_sort_def filter_empty_conv)
next
  case (Suc nb)
  have "mset (filter (\<lambda>x. f x < int (Suc nb)) xs) =
        mset (filter (\<lambda>x. f x < int nb) xs) + mset (filter (\<lambda>x. f x = int nb) xs)"
    by (induction xs) auto
  then show ?case using Suc by (simp add: bucket_sort_Suc)
qed

lemma mset_bucket_sort_all:
  "\<forall>x \<in> set xs. 0 \<le> f x \<and> f x < int nb \<Longrightarrow> mset (bucket_sort nb f xs) = mset xs"
  by (simp add: mset_bucket_sort filter_id_conv[THEN iffD2])

lemma sorted_map_const: "\<forall>x \<in> set ys. g x = (c::int) \<Longrightarrow> sorted (map g ys)"
  by (induction ys) auto

lemma sorted_bucket_sort: "sorted (map f (bucket_sort nb f xs))"
proof (induction nb)
  case 0
  then show ?case by (simp add: bucket_sort_def)
next
  case (Suc nb)
  have lo: "\<forall>x \<in> set (bucket_sort nb f xs). f x < int nb"
    unfolding bucket_sort_def by auto
  have hi: "sorted (map f (filter (\<lambda>x. f x = int nb) xs))"
    by (rule sorted_map_const[of _ _ "int nb"]) simp
  have "\<forall>x \<in> set (bucket_sort nb f xs). \<forall>y \<in> set (filter (\<lambda>x. f x = int nb) xs). f x \<le> f y"
    using lo by fastforce
  then show ?case using Suc hi
    unfolding bucket_sort_Suc map_append sorted_append by auto
qed

section \<open>Row offsets as a histogram\<close>

lemma length_offsets [simp]: "length (offsets keys nb) = Suc (nat nb)"
  by (simp add: offsets_def)

lemma nth_offsets:
  "i \<le> nat nb \<Longrightarrow> offsets keys nb ! i = int (length (filter (\<lambda>x. x < int i) keys))"
  unfolding offsets_def by (simp del: upt_Suc)

lemma length_filter_mono:
  "(\<And>x. P x \<Longrightarrow> Q x) \<Longrightarrow> length (filter P xs) \<le> length (filter Q xs)"
  by (induction xs) auto

lemma sorted_offsets: "sorted (offsets keys nb)"
  unfolding sorted_iff_nth_mono
proof (intro allI impI)
  fix i j assume ij: "i \<le> j" "j < length (offsets keys nb)"
  then have "i \<le> nat nb" "j \<le> nat nb" by auto
  moreover have "length (filter (\<lambda>x. x < int i) keys) \<le> length (filter (\<lambda>x. x < int j) keys)"
    using ij(1) by (intro length_filter_mono) auto
  ultimately show "offsets keys nb ! i \<le> offsets keys nb ! j"
    by (simp add: nth_offsets)
qed

lemma offsets_0: "\<forall>x \<in> set keys. 0 \<le> x \<Longrightarrow> offsets keys nb ! 0 = 0"
  by (auto simp: nth_offsets filter_empty_conv)

lemma offsets_last:
  "0 \<le> nb \<Longrightarrow> \<forall>x \<in> set keys. x < nb \<Longrightarrow> offsets keys nb ! nat nb = int (length keys)"
  by (simp add: nth_offsets filter_id_conv[THEN iffD2])

lemma offsets_mset: "mset ks = mset ks' \<Longrightarrow> offsets ks nb = offsets ks' nb"
proof -
  assume a: "mset ks = mset ks'"
  have "\<And>P. length (filter P ks) = length (filter P ks')"
  proof -
    fix P :: "int \<Rightarrow> bool"
    have "mset (filter P ks) = mset (filter P ks')" using a by (simp add: mset_filter)
    then show "length (filter P ks) = length (filter P ks')" by (metis size_mset)
  qed
  then show ?thesis by (simp add: offsets_def)
qed

lemma invariant_offsets:
  assumes "0 \<le> nrow" "\<forall>r \<in> set R. 0 \<le> r \<and> r < nrow" "length C = length R"
    and "\<forall>c \<in> set C. 0 \<le> c \<and> c < ncol"
  shows "invariant (CRSSparsity_new nrow ncol C (offsets R nrow))"
  using assms
  by (simp add: invariant_def CRSSparsity_new_def sorted_offsets offsets_0 offsets_last)

lemma offsets_diff:
  assumes "i < nat nb"
  shows "nat (offsets keys nb ! Suc i - offsets keys nb ! i) = length (filter (\<lambda>x. x = int i) keys)"
proof -
  have "length (filter (\<lambda>x. x < int (Suc i)) keys) =
        length (filter (\<lambda>x. x < int i) keys) + length (filter (\<lambda>x. x = int i) keys)"
    by (induction keys) auto
  then show ?thesis using assms by (simp add: nth_offsets)
qed

lemma replicate_filter_eq: "replicate (length (filter (\<lambda>x. x = c) xs)) c = filter (\<lambda>x. x = c) xs"
  by (induction xs) auto

lemma getRow_offsets:
  assumes "0 \<le> nrow" "sorted R" "\<forall>r \<in> set R. 0 \<le> r \<and> r < nrow"
  shows "getRow (CRSSparsity_new nrow ncol C (offsets R nrow)) = Inr R"
proof -
  have "map (\<lambda>r. replicate (nat (offsets R nrow ! Suc r - offsets R nrow ! r)) (int r)) [0..<nat nrow] =
        map (\<lambda>b. filter (\<lambda>x. x = int b) R) [0..<nat nrow]"
    by (rule map_cong[OF refl]) (simp add: offsets_diff replicate_filter_eq)
  then have "concat (map (\<lambda>r. replicate (nat (offsets R nrow ! Suc r - offsets R nrow ! r)) (int r)) [0..<nat nrow]) =
        bucket_sort (nat nrow) (\<lambda>x. x) R"
    unfolding bucket_sort_def by (rule arg_cong)
  also have "\<dots> = R"
    using assms by (intro bucket_sort_sorted_id) auto
  finally show ?thesis using assms(1) by (simp add: getRow_def CRSSparsity_new_def)
qed

lemma row_blocks_Suc:
  "row_blocks rowind (Suc n) = row_blocks rowind n @ replicate (nat (rowind ! Suc n - rowind ! n)) (int n)"
  by (simp add: row_blocks_def)

lemma set_row_blocks: "x \<in> set (row_blocks rowind n) \<Longrightarrow> 0 \<le> x \<and> x < int n"
  by (auto simp: row_blocks_def)

lemma sorted_row_blocks: "sorted (row_blocks rowind n)"
proof (induction n)
  case 0
  then show ?case by (simp add: row_blocks_def)
next
  case (Suc n)
  have "\<forall>x \<in> set (row_blocks rowind n). x \<le> int n"
    using set_row_blocks[of _ rowind n] by fastforce
  then show ?case using Suc by (auto simp: row_blocks_Suc sorted_append)
qed

lemma filter_row_blocks:
  "i \<le> n \<Longrightarrow> filter (\<lambda>x. x < int i) (row_blocks rowind n) = row_blocks rowind i"
proof (induction n)
  case 0
  then show ?case by (simp add: row_blocks_def)
next
  case (Suc n)
  show ?case
  proof (cases "i = Suc n")
    case True
    have "\<forall>x \<in> set (row_blocks rowind (Suc n)). x < int (Suc n)"
      using set_row_blocks[of _ rowind "Suc n"] by blast
    then show ?thesis using True by (simp add: filter_id_conv[THEN iffD2])
  next
    case False
    then have "i \<le> n" using Suc.prems by simp
    then show ?thesis using Suc.IH by (simp add: row_blocks_Suc)
  qed
qed

lemma length_row_blocks:
  "sorted rowind \<Longrightarrow> rowind ! 0 = 0 \<Longrightarrow> i < length rowind \<Longrightarrow>
   int (length (row_blocks rowind i)) = rowind ! i"
proof (induction i)
  case 0
  then show ?case by (simp add: row_blocks_def)
next
  case (Suc i)
  have "rowind ! i \<le> rowind ! Suc i"
    using Suc.prems by (simp add: sorted_iff_nth_mono)
  then show ?case using Suc by (simp add: row_blocks_Suc)
qed

lemma getRow_invariant:
  assumes "invariant a"
  shows "\<exists>R. getRow a = Inr R \<and> rowindRef a = offsets R (size1 a) \<and> sorted R \<and>
             (\<forall>r \<in> set R. 0 \<le> r \<and> r < size1 a) \<and> length R = length (colRef a)"
proof -
  let ?n = "nat (size1 a)"
  let ?R = "row_blocks (rowindRef a) ?n"
  have inv: "0 \<le> size1 a" "length (rowindRef a) = Suc ?n" "sorted (rowindRef a)"
    "rowindRef a ! 0 = 0" "rowindRef a ! ?n = int (length (colRef a))"
    using assms by (auto simp: invariant_def)
  have g: "getRow a = Inr ?R" using inv(1,2) by (simp add: getRow_def row_blocks_def)
  have nth: "\<And>i. i \<le> ?n \<Longrightarrow> offsets ?R (size1 a) ! i = rowindRef a ! i"
  proof -
    fix i assume i: "i \<le> ?n"
    have "offsets ?R (size1 a) ! i = int (length (row_blocks (rowindRef a) i))"
      using i by (simp add: nth_offsets filter_row_blocks)
    also have "\<dots> = rowindRef a ! i"
      using i inv by (intro length_row_blocks) auto
    finally show "offsets ?R (size1 a) ! i = rowindRef a ! i" .
  qed
  have "rowindRef a = offsets ?R (size1 a)"
    by (rule nth_equalityI) (auto simp: inv(2) nth less_Suc_eq_le)
  moreover have "int (length ?R) = int (length (colRef a))"
    using length_row_blocks[of "rowindRef a" ?n] inv by simp
  moreover have "\<forall>r \<in> set ?R. 0 \<le> r \<and> r < size1 a"
    using set_row_blocks[of _ "rowindRef a" ?n] inv(1) by fastforce
  ultimately show ?thesis using g sorted_row_blocks[of "rowindRef a" ?n] by auto
qed

lemma sorted_le_last: "sorted xs \<Longrightarrow> x \<in> set xs \<Longrightarrow> x \<le> (last xs :: int)"
  by (induction xs) auto

lemma for_each_fill_body_sorted:
  assumes "int (length rowind0) = nrow + 1" "0 \<le> nrow" "rowind0 ! 0 = 0"
  shows "sorted xs \<Longrightarrow> \<forall>r \<in> set xs. 0 \<le> r \<and> r < nrow \<Longrightarrow>
    \<exists>rw. for_each (fill_body e v d) xs (rowind0, 0, 0) =
            Inr (rw, d * int (length xs), (if xs = [] then 0 else last xs)) \<and>
         length rw = length rowind0 \<and>
         (\<forall>i. int i \<le> (if xs = [] then 0 else last xs) \<longrightarrow>
            rw ! i = d * int (length (filter (\<lambda>r. r < int i) xs)))"
proof (induction xs rule: rev_induct)
  case Nil
  then show ?case using assms(3) by simp
next
  case (snoc r xs)
  let ?z = "if xs = [] then 0 else last xs"
  have sx: "sorted xs" and le: "\<forall>x \<in> set xs. x \<le> r" and rng: "\<forall>r \<in> set xs. 0 \<le> r \<and> r < nrow"
    and r: "0 \<le> r" "r < nrow"
    using snoc.prems by (auto simp: sorted_append)
  obtain rw where rw: "for_each (fill_body e v d) xs (rowind0, 0, 0) = Inr (rw, d * int (length xs), ?z)"
    "length rw = length rowind0"
    "\<forall>i. int i \<le> ?z \<longrightarrow> rw ! i = d * int (length (filter (\<lambda>r. r < int i) xs))"
    using snoc.IH[OF sx rng] by blast
  have "xs \<noteq> [] \<Longrightarrow> last xs \<in> set xs" by simp
  then have z: "0 \<le> ?z" "?z \<le> r" "?z \<le> nrow" using le rng r by fastforce+
  have allz: "\<forall>x \<in> set xs. x \<le> ?z"
    using sx by (auto simp: sorted_le_last)
  have len: "int (length rw) = nrow + 1" using rw(2) assms(1) by simp
  obtain rw' where rw': "fill_body e v d r (rw, d * int (length xs), ?z) = Inr (rw', d * int (length xs) + d, max ?z r)"
    "length rw' = length rw"
    "\<forall>i < length rw. rw' ! i =
         (if int i = r + 1 then v (d * int (length xs)) else if ?z < int i \<and> int i \<le> r then d * int (length xs) else rw ! i)"
    using fill_body_ok[where rowind = rw and nrow = nrow and z = ?z and r = r and e = e and v = v
        and d = d and cnt = "d * int (length xs)"] len z r by auto
  have res: "for_each (fill_body e v d) (xs @ [r]) (rowind0, 0, 0) =
        Inr (rw', d * int (length (xs @ [r])), (if xs @ [r] = [] then 0 else last (xs @ [r])))"
    using rw(1) rw'(1) z(2) by (simp add: for_each_append algebra_simps max_def)
  have cont: "\<forall>i. int i \<le> r \<longrightarrow> rw' ! i = d * int (length (filter (\<lambda>x. x < int i) (xs @ [r])))"
  proof (intro allI impI)
    fix i assume i: "int i \<le> r"
    then have il: "i < length rw" using len r(2) by simp
    have ne: "int i \<noteq> r + 1" using i by simp
    show "rw' ! i = d * int (length (filter (\<lambda>x. x < int i) (xs @ [r])))"
    proof (cases "?z < int i")
      case True
      then have "\<forall>x \<in> set xs. x < int i" using allz by fastforce
      then have "filter (\<lambda>x. x < int i) xs = xs" by (simp add: filter_id_conv)
      then show ?thesis using rw'(3) il ne True i by simp
    next
      case False
      then have "rw' ! i = rw ! i" using rw'(3) il ne by simp
      also have "\<dots> = d * int (length (filter (\<lambda>r. r < int i) xs))" using rw(3) False by simp
      finally show ?thesis using i by simp
    qed
  qed
  show ?case using res rw'(2) rw(2) cont by simp
qed

lemma fill_rows_sorted:
  assumes "0 \<le> nrow" "sorted row" "\<forall>r \<in> set row. 0 \<le> r \<and> r < nrow"
  shows "\<exists>rw z z'. for_each (fill_body e v d) row (replicate (nat (nrow + 1)) 0, 0, 0) =
            Inr (rw, d * int (length row), z) \<and>
          fill_at e nrow (d * int (length row)) (rw, z) =
            Inr (map (\<lambda>i. d * int (length (filter (\<lambda>x. x < int i) row))) [0..<Suc (nat nrow)], z')"
proof -
  let ?r0 = "replicate (nat (nrow + 1)) (0::int)"
  let ?z = "if row = [] then 0 else last row"
  let ?cnt = "d * int (length row)"
  have len0: "int (length ?r0) = nrow + 1" and z0: "?r0 ! 0 = 0" using assms(1) by auto
  obtain rw where rw: "for_each (fill_body e v d) row (?r0, 0, 0) = Inr (rw, ?cnt, ?z)"
    "length rw = length ?r0"
    "\<forall>i. int i \<le> ?z \<longrightarrow> rw ! i = d * int (length (filter (\<lambda>r. r < int i) row))"
    using for_each_fill_body_sorted[OF len0 assms(1) z0 assms(2,3), of e v d] by blast
  have "row \<noteq> [] \<Longrightarrow> last row \<in> set row" by simp
  then have z: "0 \<le> ?z" "?z \<le> nrow" using assms(1,3) by fastforce+
  have allz: "\<forall>x \<in> set row. x \<le> ?z" using assms(2) by (auto simp: sorted_le_last)
  obtain rw' where rw': "fill_at e nrow ?cnt (rw, ?z) = Inr (rw', max ?z nrow)"
    "length rw' = length rw"
    "\<forall>i < length rw. rw' ! i = (if ?z < int i \<and> int i \<le> nrow then ?cnt else rw ! i)"
    using fill_at_ok[of ?z nrow rw e ?cnt] z rw(2) assms(1) by auto
  have "rw' = map (\<lambda>i. d * int (length (filter (\<lambda>x. x < int i) row))) [0..<Suc (nat nrow)]"
  proof (rule nth_equalityI)
    show "length rw' = length (map (\<lambda>i. d * int (length (filter (\<lambda>x. x < int i) row))) [0..<Suc (nat nrow)])"
      using rw'(2) rw(2) assms(1) by (simp add: nat_add_distrib)
  next
    fix i assume "i < length rw'"
    then have i: "i < length rw" "i \<le> nat nrow" using rw'(2) rw(2) assms(1) by (auto simp: nat_add_distrib)
    then have i': "int i \<le> nrow" using assms(1) by linarith
    have "rw' ! i = d * int (length (filter (\<lambda>x. x < int i) row))"
    proof (cases "?z < int i")
      case True
      then have "\<forall>x \<in> set row. x < int i" using allz by fastforce
      then have "filter (\<lambda>x. x < int i) row = row" by (simp add: filter_id_conv)
      then show ?thesis using rw'(3) i i' True by simp
    next
      case False
      then show ?thesis using rw'(3) rw(3) i i' by simp
    qed
    then show "rw' ! i = map (\<lambda>i. d * int (length (filter (\<lambda>x. x < int i) row))) [0..<Suc (nat nrow)] ! i"
      using i(2) by (simp del: upt_Suc)
  qed
  then show ?thesis using rw(1) rw'(1) by blast
qed

lemma sp_NZ_sorted:
  assumes "0 \<le> nrow" "length row = length col" "sorted row" "\<forall>r \<in> set row. 0 \<le> r \<and> r < nrow"
  shows "sp_NZ row col nrow ncol True = Inr (CRSSparsity_new nrow ncol col (offsets row nrow))"
proof -
  let ?r0 = "replicate (nat (nrow + 1)) (0::int)"
  have v: "vector (nrow + 1) 0 = Inr ?r0" using assms(1) by (simp add: vector_def)
  have s: "store ?r0 0 0 = Inr ?r0" using assms(1) by (simp add: store_def list_update_same_conv)
  obtain rw z z' where "for_each NZ_body row (?r0, 0, 0) = Inr (rw, 1 * int (length row), z)"
    "fill_at NZOutOfRange nrow (1 * int (length row)) (rw, z) =
       Inr (map (\<lambda>i. 1 * int (length (filter (\<lambda>x. x < int i) row))) [0..<Suc (nat nrow)], z')"
    using fill_rows_sorted[OF assms(1,3,4), of NZOutOfRange "\<lambda>cnt. cnt" 1] unfolding NZ_body_fill by blast
  then show ?thesis using assms(2) by (simp add: sp_NZ_def v s offsets_def)
qed

lemma length_filter_concat_replicate:
  "length (filter P (concat (map (replicate c) xs))) = c * length (filter P xs)"
  by (induction xs) auto

lemma sp_rowcol_sorted:
  assumes "0 \<le> nrow" "sorted row" "\<forall>r \<in> set row. 0 \<le> r \<and> r < nrow"
  shows "sp_rowcol row col nrow ncol =
     Inr (CRSSparsity_new nrow ncol (concat (replicate (length row) col))
            (offsets (concat (map (replicate (length col)) row)) nrow))"
proof -
  let ?r0 = "replicate (nat (nrow + 1)) (0::int)"
  let ?d = "int (length col)"
  have v: "vector (nrow + 1) 0 = Inr ?r0" using assms(1) by (simp add: vector_def)
  have s: "store ?r0 0 0 = Inr ?r0" using assms(1) by (simp add: store_def list_update_same_conv)
  obtain rw z z' where "for_each (rowcol_body ?d) row (?r0, 0, 0) = Inr (rw, ?d * int (length row), z)"
    "fill_at RowcolOutOfRange nrow (?d * int (length row)) (rw, z) =
       Inr (map (\<lambda>i. ?d * int (length (filter (\<lambda>x. x < int i) row))) [0..<Suc (nat nrow)], z')"
    using fill_rows_sorted[OF assms(1,2,3), of RowcolOutOfRange "\<lambda>cnt. cnt + ?d" ?d]
    unfolding rowcol_body_fill by blast
  then show ?thesis
    by (simp add: sp_rowcol_def v s offsets_def length_filter_concat_replicate)
qed

section \<open>The lower triangle\<close>

lemma load_nth: "i < length v \<Longrightarrow> load v (int i) = Inr (v ! i)"
  by (simp add: load_def)

lemma store_nth: "i < length v \<Longrightarrow> store v (int i) x = Inr (v[i := x])"
  by (simp add: store_def)

lemma take_update_snoc:
  "c < length v \<Longrightarrow> take c v = ys \<Longrightarrow> take (Suc c) (v[c := x]) = ys @ [x]"
  by (simp add: take_Suc_conv_app_nth)

lemma length_filter_take_le: "length (filter P (take i zs)) \<le> length (filter P zs)"
proof -
  have "length (filter P zs) = length (filter P (take i zs)) + length (filter P (drop i zs))"
    by (metis append_take_drop_id filter_append length_append)
  then show ?thesis by simp
qed

lemma length_filter_take_Suc:
  assumes "i < length zs" "P (zs ! i)"
  shows "length (filter P (take i zs)) < length (filter P zs)"
proof -
  have "length (filter P (take (Suc i) zs)) = Suc (length (filter P (take i zs)))"
    using assms by (simp add: take_Suc_conv_app_nth)
  then show ?thesis using length_filter_take_le[of P "Suc i" zs] by simp
qed

lemma lower_count_loop:
  assumes "length row = length col"
  shows "for_each (lower_count_body row col) (upto_n (int (length row))) 0 =
           Inr (int (length (filter is_lower (zip row col))))"
proof -
  let ?zs = "zip row col"
  have "\<exists>s'. for_each (lower_count_body row col) (map int [0..<length row]) 0 = Inr s' \<and>
          s' = int (length (filter is_lower (take (length row) ?zs)))"
  proof (rule for_each_upto_invariant[where P = "\<lambda>i s. s = int (length (filter is_lower (take i ?zs)))"])
    show "0 = int (length (filter is_lower (take 0 ?zs)))" by simp
  next
    fix i s assume i: "i < length row" and s: "s = int (length (filter is_lower (take i ?zs)))"
    have "take (Suc i) ?zs = take i ?zs @ [(row ! i, col ! i)]"
      using i assms by (simp add: take_Suc_conv_app_nth)
    then show "\<exists>s'. lower_count_body row col (int i) s = Inr s' \<and>
            s' = int (length (filter is_lower (take (Suc i) ?zs)))"
      using i assms s by (simp add: lower_count_body_def load_nth is_lower_def)
  qed
  then show ?thesis using assms by (simp add: upto_n_def)
qed

lemma lowerNZ_loop:
  assumes "length row = length col"
  shows "for_each (lowerNZ_body row col) (upto_n (int (length row)))
           (replicate (length (filter is_lower (zip row col))) 0, 0) =
         Inr (map int (filter (\<lambda>k. is_lower (row ! k, col ! k)) [0..<length row]),
              int (length (filter is_lower (zip row col))))"
proof -
  let ?zs = "zip row col"
  let ?N = "length (filter is_lower ?zs)"
  let ?Q = "\<lambda>k. is_lower (row ! k, col ! k)"
  let ?I = "\<lambda>i s. case s of (ret, cnt) \<Rightarrow> length ret = ?N \<and>
              cnt = int (length (filter ?Q [0..<i])) \<and>
              length (filter ?Q [0..<i]) = length (filter is_lower (take i ?zs)) \<and>
              take (nat cnt) ret = map int (filter ?Q [0..<i])"
  have "\<exists>s'. for_each (lowerNZ_body row col) (map int [0..<length row]) (replicate ?N 0, 0) = Inr s' \<and>
          ?I (length row) s'"
  proof (rule for_each_upto_invariant[where P = ?I])
    show "?I 0 (replicate ?N 0, 0)" by simp
  next
    fix i s assume i: "i < length row" and s: "?I i s"
    obtain ret cnt where [simp]: "s = (ret, cnt)" by (cases s)
    let ?c = "length (filter ?Q [0..<i])"
    have inv: "length ret = ?N" "cnt = int ?c" "?c = length (filter is_lower (take i ?zs))"
      "take ?c ret = map int (filter ?Q [0..<i])"
      using s by auto
    have zi: "?zs ! i = (row ! i, col ! i)" using i assms by simp
    have tk: "take (Suc i) ?zs = take i ?zs @ [(row ! i, col ! i)]"
      using i assms by (simp add: take_Suc_conv_app_nth)
    show "\<exists>s'. lowerNZ_body row col (int i) s = Inr s' \<and> ?I (Suc i) s'"
    proof (cases "?Q i")
      case True
      have "?c < ?N" using length_filter_take_Suc[of i ?zs is_lower] i assms True zi inv(3) by simp
      then have c: "?c < length ret" using inv(1) by simp
      have "take (Suc ?c) (ret[?c := int i]) = map int (filter ?Q [0..<i]) @ [int i]"
        using take_update_snoc[OF c inv(4)] .
      then show ?thesis using True i assms inv c tk
        by (simp add: lowerNZ_body_def load_nth store_nth is_lower_def nat_add_distrib)
    next
      case False
      then show ?thesis using i assms inv tk
        by (simp add: lowerNZ_body_def load_nth is_lower_def)
    qed
  qed
  then obtain ret cnt where r: "for_each (lowerNZ_body row col) (map int [0..<length row]) (replicate ?N 0, 0) = Inr (ret, cnt)"
    "length ret = ?N" "cnt = int (length (filter ?Q [0..<length row]))"
    "length (filter ?Q [0..<length row]) = length (filter is_lower (take (length row) ?zs))"
    "take (nat cnt) ret = map int (filter ?Q [0..<length row])"
    by auto
  have "nat cnt = ?N" using r(3,4) assms by simp
  then have "ret = map int (filter ?Q [0..<length row])" using r(2,5) by simp
  then show ?thesis using r(1,3,4) assms by (simp add: upto_n_def)
qed

lemma lowerSparsity_loop:
  assumes "length row = length col"
  shows "for_each (lowerSparsity_body row col) (upto_n (int (length row)))
           (replicate (length (filter is_lower (zip row col))) 0,
            replicate (length (filter is_lower (zip row col))) 0, 0) =
         Inr (map snd (filter is_lower (zip row col)), map fst (filter is_lower (zip row col)),
              int (length (filter is_lower (zip row col))))"
proof -
  let ?zs = "zip row col"
  let ?N = "length (filter is_lower ?zs)"
  let ?I = "\<lambda>i s. case s of (new_col, new_row, cnt) \<Rightarrow> length new_col = ?N \<and> length new_row = ?N \<and>
              cnt = int (length (filter is_lower (take i ?zs))) \<and>
              take (nat cnt) new_col = map snd (filter is_lower (take i ?zs)) \<and>
              take (nat cnt) new_row = map fst (filter is_lower (take i ?zs))"
  have "\<exists>s'. for_each (lowerSparsity_body row col) (map int [0..<length row])
           (replicate ?N 0, replicate ?N 0, 0) = Inr s' \<and> ?I (length row) s'"
  proof (rule for_each_upto_invariant[where P = ?I])
    show "?I 0 (replicate ?N 0, replicate ?N 0, 0)" by simp
  next
    fix i s assume i: "i < length row" and s: "?I i s"
    obtain new_col new_row cnt where [simp]: "s = (new_col, new_row, cnt)" by (cases s)
    let ?c = "length (filter is_lower (take i ?zs))"
    have inv: "length new_col = ?N" "length new_row = ?N" "cnt = int ?c"
      "take ?c new_col = map snd (filter is_lower (take i ?zs))"
      "take ?c new_row = map fst (filter is_lower (take i ?zs))"
      using s by auto
    have zi: "?zs ! i = (row ! i, col ! i)" using i assms by simp
    have tk: "take (Suc i) ?zs = take i ?zs @ [(row ! i, col ! i)]"
      using i assms by (simp add: take_Suc_conv_app_nth)
    show "\<exists>s'. lowerSparsity_body row col (int i) s = Inr s' \<and> ?I (Suc i) s'"
    proof (cases "is_lower (row ! i, col ! i)")
      case True
      have "?c < ?N" using length_filter_take_Suc[of i ?zs is_lower] i assms True zi by simp
      then have c: "?c < length new_col" "?c < length new_row" using inv(1,2) by simp_all
      have "take (Suc ?c) (new_col[?c := col ! i]) = map snd (filter is_lower (take i ?zs)) @ [col ! i]"
        "take (Suc ?c) (new_row[?c := row ! i]) = map fst (filter is_lower (take i ?zs)) @ [row ! i]"
        using take_update_snoc[OF c(1) inv(4)] take_update_snoc[OF c(2) inv(5)] by blast+
      then show ?thesis using True i assms inv c tk
        by (simp add: lowerSparsity_body_def load_nth store_nth is_lower_def nat_add_distrib)
    next
      case False
      then show ?thesis using i assms inv tk
        by (simp add: lowerSparsity_body_def load_nth is_lower_def)
    qed
  qed
  then obtain new_col new_row cnt where r:
    "for_each (lowerSparsity_body row col) (map int [0..<length row])
           (replicate ?N 0, replicate ?N 0, 0) = Inr (new_col, new_row, cnt)"
    "length new_col = ?N" "length new_row = ?N" "cnt = int (length (filter is_lower (take (length row) ?zs)))"
    "take (nat cnt) new_col = map snd (filter is_lower (take (length row) ?zs))"
    "take (nat cnt) new_row = map fst (filter is_lower (take (length row) ?zs))"
    by auto
  have "nat cnt = ?N" using r(4) assms by simp
  then have "new_col = map snd (filter is_lower ?zs)" "new_row = map fst (filter is_lower ?zs)"
    using r(2,3,5,6) assms by simp_all
  then show ?thesis using r(1,4) assms by (simp add: upto_n_def)
qed

lemma filter_by_index:
  "map (\<lambda>k. zs ! k) (filter (\<lambda>k. P (zs ! k)) [0..<length zs]) = filter P zs"
proof -
  have "filter P (map (\<lambda>k. zs ! k) [0..<length zs]) = map (\<lambda>k. zs ! k) (filter (P \<circ> (\<lambda>k. zs ! k)) [0..<length zs])"
    by (rule filter_map)
  then show ?thesis by (simp add: map_nth comp_def)
qed

text \<open>
  Claim C6.  For every pattern \<open>a\<close> that satisfies the invariant of the data model,
  \<open>lowerSparsity a\<close> is the pattern of the same shape whose nonzeros are exactly the
  nonzeros of \<open>a\<close> with row index at least the column index, in the storage order of \<open>a\<close>;
  \<open>lowerNZ a\<close> lists the storage indices in \<open>a\<close> of those same nonzeros, so its length is
  the number of nonzeros of \<open>lowerSparsity a\<close>.
\<close>

theorem lower_pattern_and_indices:
  assumes "invariant a"
  shows "\<exists>R L RL nz. getRow a = Inr R \<and> lowerSparsity a = Inr L \<and> getRow L = Inr RL \<and>
           lowerNZ a = Inr nz \<and>
           size1 L = size1 a \<and> size2 L = size2 a \<and> invariant L \<and>
           zip RL (colRef L) = filter (\<lambda>p. fst p \<ge> snd p) (zip R (colRef a)) \<and>
           nz = map int (filter (\<lambda>k. R ! k \<ge> colRef a ! k) [0..<length (colRef a)]) \<and>
           zip RL (colRef L) = map (\<lambda>k. (R ! nat k, colRef a ! nat k)) nz \<and>
           int (length nz) = sp_size L"
proof -
  obtain R where R: "getRow a = Inr R" "sorted R" "\<forall>r \<in> set R. 0 \<le> r \<and> r < size1 a"
    "length R = length (colRef a)"
    using getRow_invariant[OF assms] by blast
  let ?C = "colRef a"
  let ?zs = "zip R ?C"
  let ?lo = "filter is_lower ?zs"
  have n0: "0 \<le> size1 a" and cr: "\<forall>c \<in> set ?C. 0 \<le> c \<and> c < size2 a"
    using assms by (auto simp: invariant_def)
  have srt: "sorted (map fst ?lo)"
  proof -
    have "sorted (map fst ?zs)" using R(2,4) by simp
    then show ?thesis by (simp add: sorted_map sorted_wrt_filter)
  qed
  have rng: "\<forall>r \<in> set (map fst ?lo). 0 \<le> r \<and> r < size1 a"
    using R(3) by (auto dest: set_zip_leftD)
  have crng: "\<forall>c \<in> set (map snd ?lo). 0 \<le> c \<and> c < size2 a"
    using cr by (auto dest: set_zip_rightD)
  let ?L = "CRSSparsity_new (size1 a) (size2 a) (map snd ?lo) (offsets (map fst ?lo) (size1 a))"
  have nz: "sp_NZ (map fst ?lo) (map snd ?lo) (size1 a) (size2 a) True = Inr ?L"
    using sp_NZ_sorted[OF n0 _ srt rng, of "map snd ?lo" "size2 a"] by simp
  have cl: "for_each (lower_count_body R ?C) (upto_n (int (length R))) 0 = Inr (int (length ?lo))"
    using lower_count_loop[OF R(4)] .
  have vl: "vector (int (length ?lo)) 0 = Inr (replicate (length ?lo) 0)"
    by (simp add: vector_def)
  have L: "lowerSparsity a = Inr ?L"
    unfolding lowerSparsity_def R(1) using cl vl lowerSparsity_loop[OF R(4)] nz
    by simp
  have gL: "getRow ?L = Inr (map fst ?lo)"
    using getRow_offsets[OF n0 srt rng] .
  have iL: "invariant ?L"
    using invariant_offsets[OF n0 rng _ crng] by simp
  let ?nz = "map int (filter (\<lambda>k. is_lower (R ! k, ?C ! k)) [0..<length R])"
  have N: "lowerNZ a = Inr ?nz"
    unfolding lowerNZ_def R(1) using cl vl lowerNZ_loop[OF R(4)]
    by simp
  have q: "(\<lambda>k. is_lower (R ! k, ?C ! k)) = (\<lambda>k. R ! k \<ge> ?C ! k)"
    by (simp add: is_lower_def)
  have z1: "zip (map fst ?lo) (map snd ?lo) = ?lo" by (simp add: zip_map_fst_snd)
  have "map (\<lambda>k. ?zs ! k) (filter (\<lambda>k. is_lower (?zs ! k)) [0..<length ?zs]) = ?lo"
    by (rule filter_by_index)
  moreover have "map (\<lambda>k. ?zs ! k) (filter (\<lambda>k. is_lower (?zs ! k)) [0..<length ?zs]) =
      map (\<lambda>k. (R ! k, ?C ! k)) (filter (\<lambda>k. is_lower (R ! k, ?C ! k)) [0..<length R])"
    using R(4) by (auto intro!: map_cong filter_cong)
  ultimately have z2: "?lo = map (\<lambda>k. (R ! nat k, ?C ! nat k)) ?nz"
    by (simp add: comp_def)
  have len: "int (length ?nz) = sp_size ?L"
  proof -
    have "length ?lo = length ?nz" by (subst z2) simp
    then show ?thesis by (simp add: sp_size_def CRSSparsity_new_def)
  qed
  have lo: "?lo = filter (\<lambda>p. fst p \<ge> snd p) ?zs"
    by (rule filter_cong) (auto simp: is_lower_def)
  show ?thesis
    apply (rule exI[of _ R], rule exI[of _ ?L], rule exI[of _ "map fst ?lo"], rule exI[of _ ?nz])
    using R(1,4) L gL N iL z1 z2 len lo q
    by (simp add: CRSSparsity_new_def)
qed

theorem lower_pattern_and_indices_witness:
  "invariant \<lparr>size1 = 3, size2 = 3, colRef = [0, 2, 1, 0, 1, 2], rowindRef = [0, 2, 3, 6]\<rparr> \<and>
   (\<exists>L nz. lowerSparsity \<lparr>size1 = 3, size2 = 3, colRef = [0, 2, 1, 0, 1, 2], rowindRef = [0, 2, 3, 6]\<rparr> = Inr L \<and>
      lowerNZ \<lparr>size1 = 3, size2 = 3, colRef = [0, 2, 1, 0, 1, 2], rowindRef = [0, 2, 3, 6]\<rparr> = Inr nz \<and>
      invariant L \<and> int (length nz) = sp_size L) \<and>
   lowerSparsity \<lparr>size1 = 3, size2 = 3, colRef = [0, 2, 1, 0, 1, 2], rowindRef = [0, 2, 3, 6]\<rparr> =
     Inr \<lparr>size1 = 3, size2 = 3, colRef = [0, 1, 0, 1, 2], rowindRef = [0, 1, 2, 5]\<rparr> \<and>
   lowerNZ \<lparr>size1 = 3, size2 = 3, colRef = [0, 2, 1, 0, 1, 2], rowindRef = [0, 2, 3, 6]\<rparr> =
     Inr [0, 2, 3, 4, 5]"
proof -
  let ?a = "\<lparr>size1 = 3, size2 = 3, colRef = [0, 2, 1, 0, 1, 2], rowindRef = [0, 2, 3, 6]\<rparr>"
  have inv: "invariant ?a" by code_simp
  have ex: "\<exists>L nz. lowerSparsity ?a = Inr L \<and> lowerNZ ?a = Inr nz \<and> invariant L \<and>
      int (length nz) = sp_size L"
    using lower_pattern_and_indices[OF inv] by blast
  have l: "lowerSparsity ?a = Inr \<lparr>size1 = 3, size2 = 3, colRef = [0, 1, 0, 1, 2], rowindRef = [0, 1, 2, 5]\<rparr>"
    by code_simp
  have n: "lowerNZ ?a = Inr [0, 2, 3, 4, 5]" by code_simp
  show ?thesis using inv ex l n by blast
qed

section \<open>Reshape\<close>

lemma int32_id: "- (2 ^ 31) \<le> x \<Longrightarrow> x < 2 ^ 31 \<Longrightarrow> int32 x = x"
  by (simp add: int32_def)

lemma cdiv_nonneg: "0 \<le> a \<Longrightarrow> 0 < b \<Longrightarrow> cdiv a b = a div b"
  by (cases "a = 0") (simp_all add: cdiv_def)

lemma cmod_nonneg: "0 \<le> a \<Longrightarrow> 0 < b \<Longrightarrow> cmod a b = a mod b"
  by (simp add: cmod_def cdiv_nonneg minus_mult_div_eq_mod)

lemma div_less_of_less_mult:
  assumes "0 < (m::int)" "z < n * m"
  shows "z div m < n"
proof (rule ccontr)
  assume "\<not> z div m < n"
  then have "n \<le> z div m" by simp
  then have "n * m \<le> (z div m) * m" using assms(1) by (intro mult_right_mono) auto
  moreover have "z div m * m + z mod m = z" by simp
  moreover have "0 \<le> z mod m" using assms(1) by simp
  ultimately show False using assms(2) by linarith
qed

lemma flat_index_bounds:
  assumes "0 \<le> (r::int)" "r < nrow" "0 \<le> c" "c < ncol"
  shows "0 \<le> c + r * ncol" "c + r * ncol < nrow * ncol"
proof -
  show "0 \<le> c + r * ncol" using assms by simp
  have "r + 1 \<le> nrow" using assms by simp
  then have "(r + 1) * ncol \<le> nrow * ncol" using assms by (intro mult_right_mono) auto
  then show "c + r * ncol < nrow * ncol" using assms by (simp add: algebra_simps)
qed

lemma flat_index_mono:
  assumes "(r::int) < r'" "c < ncol" "0 \<le> c'" "0 \<le> ncol"
  shows "c + r * ncol \<le> c' + r' * ncol"
proof -
  have "r + 1 \<le> r'" using assms by simp
  then have "(r + 1) * ncol \<le> r' * ncol" using assms by (intro mult_right_mono) auto
  then show ?thesis using assms by (simp add: algebra_simps)
qed

lemma flat_index_div: "0 \<le> (c::int) \<Longrightarrow> c < ncol \<Longrightarrow> (c + r * ncol) div ncol = r"
  by simp

lemma flat_index_mod: "0 \<le> (c::int) \<Longrightarrow> c < ncol \<Longrightarrow> (c + r * ncol) mod ncol = c"
  by simp

lemma reshape_loop:
  assumes "length row = length col" "m \<noteq> 0 \<or> row = []"
    and "\<forall>p \<in> set (zip row col). 0 \<le> fst p * s2 \<and> 0 \<le> snd p \<and> snd p + fst p * s2 < 2 ^ 31"
  shows "for_each (reshape_body row col s2 m) (upto_n (int (length row)))
           (replicate (length row) 0, replicate (length row) 0) =
         Inr (map (\<lambda>p. cdiv (snd p + fst p * s2) m) (zip row col),
              map (\<lambda>p. cmod (snd p + fst p * s2) m) (zip row col))"
proof -
  let ?zs = "zip row col"
  let ?n = "length row"
  let ?f = "\<lambda>p. cdiv (snd p + fst p * s2) m"
  let ?g = "\<lambda>p. cmod (snd p + fst p * s2) m"
  let ?I = "\<lambda>i s. case s of (row_new, col_new) \<Rightarrow> length row_new = ?n \<and> length col_new = ?n \<and>
              take i row_new = map ?f (take i ?zs) \<and> take i col_new = map ?g (take i ?zs)"
  have "\<exists>s'. for_each (reshape_body row col s2 m) (map int [0..<?n])
           (replicate ?n 0, replicate ?n 0) = Inr s' \<and> ?I ?n s'"
  proof (rule for_each_upto_invariant[where P = ?I])
    show "?I 0 (replicate ?n 0, replicate ?n 0)" by simp
  next
    fix i s assume i: "i < ?n" and s: "?I i s"
    obtain row_new col_new where [simp]: "s = (row_new, col_new)" by (cases s)
    have inv: "length row_new = ?n" "length col_new = ?n"
      "take i row_new = map ?f (take i ?zs)" "take i col_new = map ?g (take i ?zs)"
      using s by auto
    have m: "m \<noteq> 0" using assms(2) i by auto
    have "(row ! i, col ! i) \<in> set ?zs"
      using i assms(1) by (metis length_zip min.idem nth_mem nth_zip)
    then have b: "0 \<le> row ! i * s2" "0 \<le> col ! i" "col ! i + row ! i * s2 < 2 ^ 31"
      using assms(3) by auto
    have w1: "int32 (row ! i * s2) = row ! i * s2" using b by (intro int32_id) auto
    have w2: "int32 (col ! i + row ! i * s2) = col ! i + row ! i * s2" using b by (intro int32_id) auto
    have w3: "col ! i + row ! i * s2 \<noteq> - 2147483648" using b by simp
    have tk: "take (Suc i) ?zs = take i ?zs @ [(row ! i, col ! i)]"
      using i assms by (simp add: take_Suc_conv_app_nth)
    have "take (Suc i) (row_new[i := ?f (row ! i, col ! i)]) = map ?f (take i ?zs) @ [?f (row ! i, col ! i)]"
      "take (Suc i) (col_new[i := ?g (row ! i, col ! i)]) = map ?g (take i ?zs) @ [?g (row ! i, col ! i)]"
      using take_update_snoc[of i row_new, OF _ inv(3)] take_update_snoc[of i col_new, OF _ inv(4)] i inv(1,2)
      by simp_all
    then show "\<exists>s'. reshape_body row col s2 m (int i) s = Inr s' \<and> ?I (Suc i) s'"
      using i assms(1) inv(1,2) m tk w3
      by (simp add: reshape_body_def load_nth store_nth Let_def w1 w2)
  qed
  then show ?thesis using assms(1) by (auto simp: upto_n_def)
qed

lemma zip_map_same: "zip (map f xs) (map g xs) = map (\<lambda>x. (f x, g x)) xs"
  by (induction xs) auto

lemma CRSSparsity_eq_offsets:
  assumes "invariant a" "getRow a = Inr R"
  shows "CRSSparsity_new (size1 a) (size2 a) (colRef a) (offsets R (size1 a)) = a"
  using getRow_invariant[OF assms(1)] assms(2) by (auto simp: CRSSparsity_new_def)

lemma flat_index_sorted:
  assumes "sorted (map fst zs)"
    and "sorted_wrt (\<lambda>p q. fst p = fst q \<longrightarrow> snd p \<le> snd q) zs"
    and "\<forall>p \<in> set zs. 0 \<le> snd p \<and> snd p < (ncol::int)"
  shows "sorted (map (\<lambda>p. snd p + fst p * ncol) zs)"
proof -
  have "\<And>i j. i < j \<Longrightarrow> j < length zs \<Longrightarrow>
          snd (zs ! i) + fst (zs ! i) * ncol \<le> snd (zs ! j) + fst (zs ! j) * ncol"
  proof -
    fix i j assume ij: "i < j" "j < length zs"
    have f: "fst (zs ! i) \<le> fst (zs ! j)"
      using assms(1) ij unfolding sorted_map sorted_wrt_iff_nth_less by auto
    have b: "0 \<le> snd (zs ! i)" "snd (zs ! i) < ncol" "0 \<le> snd (zs ! j)" "snd (zs ! j) < ncol"
      using assms(3) ij by auto
    show "snd (zs ! i) + fst (zs ! i) * ncol \<le> snd (zs ! j) + fst (zs ! j) * ncol"
    proof (cases "fst (zs ! i) = fst (zs ! j)")
      case True
      then have "snd (zs ! i) \<le> snd (zs ! j)"
        using assms(2) ij unfolding sorted_wrt_iff_nth_less by auto
      then show ?thesis using True by simp
    next
      case False
      then have "fst (zs ! i) < fst (zs ! j)" using f by simp
      then show ?thesis using b by (intro flat_index_mono) auto
    qed
  qed
  then have "sorted_wrt (\<lambda>p q. snd p + fst p * ncol \<le> snd q + fst q * ncol) zs"
    unfolding sorted_wrt_iff_nth_less by blast
  then show ?thesis by (simp add: sorted_map)
qed

text \<open>
  Claim C3, as the code has it.  Let \<open>a\<close> satisfy the invariant of the data model and
  have non-decreasing column indices within each row, and let \<open>n\<close> and \<open>m\<close> be
  non-negative with \<open>n * m\<close> the element count of \<open>a\<close>.  Let the element count be below
  \<open>2^31\<close>, so that every flat index is an \<open>int\<close>, and let the dimensions be \<open>int\<close>s with
  \<open>n + 1\<close> and \<open>size1 a + 1\<close> in the range too.  Then \<open>reshape a n m\<close> is a
  pattern \<open>b\<close> of shape \<open>n\<close> by \<open>m\<close> that places the nonzero \<open>(i, j)\<close> of \<open>a\<close> at
  \<open>(z div m, z mod m)\<close> for \<open>z = j + i * size2 a\<close>, in the same storage order, and
  reshaping \<open>b\<close> to the shape of \<open>a\<close> gives \<open>a\<close> back.  The condition on the order of the
  columns is what \<open>reshape\<close> promises to \<open>sp_NZ\<close> by passing \<open>monotone = true\<close>.
\<close>

theorem reshape_round_trip:
  assumes "invariant a" "columnsSequential a False" "0 \<le> n" "0 \<le> m"
    and "n * m = size1 a * size2 a" "size1 a * size2 a < 2 ^ 31"
    and "n < 2 ^ 31 - 1" "m < 2 ^ 31" "size1 a < 2 ^ 31 - 1" "size2 a < 2 ^ 31"
  shows "\<exists>R b Rb. getRow a = Inr R \<and> reshape a n m = Inr b \<and> getRow b = Inr Rb \<and>
           invariant b \<and> size1 b = n \<and> size2 b = m \<and>
           zip Rb (colRef b) =
             map (\<lambda>p. ((snd p + fst p * size2 a) div m, (snd p + fst p * size2 a) mod m))
               (zip R (colRef a)) \<and>
           reshape b (size1 a) (size2 a) = Inr a"
proof -
  obtain R where R: "getRow a = Inr R" "sorted R" "\<forall>r \<in> set R. 0 \<le> r \<and> r < size1 a"
    "length R = length (colRef a)"
    using getRow_invariant[OF assms(1)] by blast
  let ?C = "colRef a" and ?nr = "size1 a" and ?nc = "size2 a"
  let ?zs = "zip R ?C"
  let ?zf = "\<lambda>p. snd p + fst p * ?nc"
  have n0: "0 \<le> ?nr" and cr: "\<forall>c \<in> set ?C. 0 \<le> c \<and> c < ?nc"
    using assms(1) by (auto simp: invariant_def)
  have seq: "sorted_wrt (\<lambda>p q. fst p = fst q \<longrightarrow> snd p \<le> snd q) ?zs"
    using assms(2) R(1) by (simp add: columnsSequential_def)
  have el: "\<And>p. p \<in> set ?zs \<Longrightarrow> 0 \<le> fst p \<and> fst p < ?nr \<and> 0 \<le> snd p \<and> snd p < ?nc"
    using R(3) cr by (auto dest: set_zip_leftD set_zip_rightD)
  have zb: "\<And>p. p \<in> set ?zs \<Longrightarrow> 0 \<le> ?zf p \<and> ?zf p < n * m"
  proof -
    fix p assume "p \<in> set ?zs"
    then have "0 \<le> fst p" "fst p < ?nr" "0 \<le> snd p" "snd p < ?nc" using el by auto
    then show "0 \<le> ?zf p \<and> ?zf p < n * m"
      using flat_index_bounds[of "fst p" ?nr "snd p" ?nc] assms(5) by simp
  qed
  have mpos: "\<And>p. p \<in> set ?zs \<Longrightarrow> 0 < m \<and> 0 < n \<and> 0 < ?nc"
  proof -
    fix p assume p: "p \<in> set ?zs"
    then have "0 < n * m" using zb[OF p] by linarith
    then have "0 < m \<and> 0 < n" using assms(3,4) by (simp add: zero_less_mult_iff)
    then show "0 < m \<and> 0 < n \<and> 0 < ?nc" using el[OF p] by linarith
  qed
  let ?Rb = "map (\<lambda>p. ?zf p div m) ?zs" and ?Cb = "map (\<lambda>p. ?zf p mod m) ?zs"
  have lp1: "for_each (reshape_body R ?C ?nc m) (upto_n (int (length R)))
           (replicate (length R) 0, replicate (length R) 0) =
         Inr (map (\<lambda>p. cdiv (?zf p) m) ?zs, map (\<lambda>p. cmod (?zf p) m) ?zs)"
  proof (rule reshape_loop[OF R(4)])
    show "m \<noteq> 0 \<or> R = []"
    proof (cases "R = []")
      case False
      then have "?zs \<noteq> []" using R(4) by (cases R; cases ?C) auto
      then obtain p where "p \<in> set ?zs" by (cases ?zs) auto
      then show ?thesis using mpos by fastforce
    qed simp
    show "\<forall>p \<in> set ?zs. 0 \<le> fst p * ?nc \<and> 0 \<le> snd p \<and> snd p + fst p * ?nc < 2 ^ 31"
    proof
      fix p assume p: "p \<in> set ?zs"
      have "0 \<le> fst p" "0 \<le> ?nc" using el[OF p] by auto
      then have "0 \<le> fst p * ?nc" by simp
      moreover have "?zf p < 2 ^ 31" using zb[OF p] assms(5,6) by simp
      ultimately show "0 \<le> fst p * ?nc \<and> 0 \<le> snd p \<and> snd p + fst p * ?nc < 2 ^ 31"
        using el[OF p] by simp
    qed
  qed
  have e1: "map (\<lambda>p. cdiv (?zf p) m) ?zs = ?Rb"
    by (rule map_cong[OF refl]) (use zb mpos in \<open>simp add: cdiv_nonneg\<close>)
  have e2: "map (\<lambda>p. cmod (?zf p) m) ?zs = ?Cb"
    by (rule map_cong[OF refl]) (use zb mpos in \<open>simp add: cmod_nonneg\<close>)
  have srt_z: "sorted (map ?zf ?zs)"
    using flat_index_sorted[of ?zs ?nc] R(2,4) seq el by simp
  have srt_b: "sorted ?Rb"
  proof -
    have "\<And>i j. i < j \<Longrightarrow> j < length ?zs \<Longrightarrow> ?zf (?zs ! i) div m \<le> ?zf (?zs ! j) div m"
    proof -
      fix i j assume ij: "i < j" "j < length ?zs"
      then have le: "?zf (?zs ! i) \<le> ?zf (?zs ! j)"
        using srt_z unfolding sorted_map sorted_wrt_iff_nth_less by auto
      have "?zs ! j \<in> set ?zs" using ij by (intro nth_mem)
      then have "0 < m" using mpos by blast
      with le show "?zf (?zs ! i) div m \<le> ?zf (?zs ! j) div m"
        by (rule zdiv_mono1)
    qed
    then have "sorted_wrt (\<lambda>p q. ?zf p div m \<le> ?zf q div m) ?zs"
      unfolding sorted_wrt_iff_nth_less by blast
    then show ?thesis by (simp add: sorted_map)
  qed
  have rng_b: "\<forall>r \<in> set ?Rb. 0 \<le> r \<and> r < n"
  proof
    fix r assume "r \<in> set ?Rb"
    then obtain p where p: "p \<in> set ?zs" "r = ?zf p div m" by auto
    have "0 < m" "0 \<le> ?zf p" "?zf p < n * m" using mpos[OF p(1)] zb[OF p(1)] by auto
    then show "0 \<le> r \<and> r < n"
      using p(2) div_less_of_less_mult[of m "?zf p" n] by (simp add: pos_imp_zdiv_nonneg_iff)
  qed
  have rng_c: "\<forall>c \<in> set ?Cb. 0 \<le> c \<and> c < m"
  proof
    fix c assume "c \<in> set ?Cb"
    then obtain p where p: "p \<in> set ?zs" "c = ?zf p mod m" by auto
    then show "0 \<le> c \<and> c < m" using mpos[OF p(1)] by simp
  qed
  let ?b = "CRSSparsity_new n m ?Cb (offsets ?Rb n)"
  have nzb: "sp_NZ ?Rb ?Cb n m True = Inr ?b"
    using sp_NZ_sorted[OF assms(3) _ srt_b rng_b, of ?Cb m] by simp
  have va: "vector (sp_size a) 0 = Inr (replicate (length R) 0)"
    using R(4) by (simp add: vector_def sp_size_def)
  have sa: "upto_n (sp_size a) = upto_n (int (length R))"
    using R(4) by (simp add: sp_size_def)
  have g1: "numel a = int32 (n * m)" by (simp add: numel_def assms(5))
  have rb: "reshape a n m = Inr ?b"
    unfolding reshape_def R(1) va sa using g1 lp1 e1 e2 nzb by simp
  have gb: "getRow ?b = Inr ?Rb"
    using getRow_offsets[OF assms(3) srt_b rng_b] .
  have ib: "invariant ?b"
    using invariant_offsets[OF assms(3) rng_b _ rng_c] by simp
  have zb': "zip ?Rb ?Cb = map (\<lambda>p. (?zf p div m, ?zf p mod m)) ?zs"
    by (rule zip_map_same)
  have lp2: "for_each (reshape_body ?Rb ?Cb m ?nc) (upto_n (int (length ?Rb)))
           (replicate (length ?Rb) 0, replicate (length ?Rb) 0) =
         Inr (map (\<lambda>p. cdiv (snd p + fst p * m) ?nc) (zip ?Rb ?Cb),
              map (\<lambda>p. cmod (snd p + fst p * m) ?nc) (zip ?Rb ?Cb))"
  proof (rule reshape_loop)
    show "length ?Rb = length ?Cb" by simp
    show "?nc \<noteq> 0 \<or> ?Rb = []"
    proof (cases "?zs = []")
      case False
      then obtain p where "p \<in> set ?zs" by (cases ?zs) auto
      then show ?thesis using mpos by fastforce
    qed simp
    show "\<forall>q \<in> set (zip ?Rb ?Cb). 0 \<le> fst q * m \<and> 0 \<le> snd q \<and> snd q + fst q * m < 2 ^ 31"
    proof
      fix q assume "q \<in> set (zip ?Rb ?Cb)"
      then obtain p where p: "p \<in> set ?zs" "q = (?zf p div m, ?zf p mod m)"
        unfolding zb' by auto
      have m0: "0 < m" and z0: "0 \<le> ?zf p" and z1: "?zf p < 2 ^ 31"
        using mpos[OF p(1)] zb[OF p(1)] assms(5,6) by auto
      have d0: "0 \<le> ?zf p div m" using z0 m0 by (simp add: pos_imp_zdiv_nonneg_iff)
      have "0 \<le> ?zf p div m * m" using d0 m0 by simp
      moreover have "0 \<le> ?zf p mod m" using m0 by simp
      moreover have "?zf p mod m + ?zf p div m * m = ?zf p" by simp
      ultimately show "0 \<le> fst q * m \<and> 0 \<le> snd q \<and> snd q + fst q * m < 2 ^ 31"
        unfolding p(2) fst_conv snd_conv using z1 by presburger
    qed
  qed
  have bk: "\<And>p. p \<in> set ?zs \<Longrightarrow> cdiv (?zf p) ?nc = fst p \<and> cmod (?zf p) ?nc = snd p"
  proof -
    fix p assume p: "p \<in> set ?zs"
    have "0 \<le> ?zf p" "0 < ?nc" "0 \<le> snd p" "snd p < ?nc" using zb[OF p] mpos[OF p] el[OF p] by auto
    then show "cdiv (?zf p) ?nc = fst p \<and> cmod (?zf p) ?nc = snd p"
      by (simp add: cdiv_nonneg cmod_nonneg)
  qed
  have zz: "\<And>p. ?zf p mod m + ?zf p div m * m = ?zf p" by simp
  have e3: "map (\<lambda>p. cdiv (snd p + fst p * m) ?nc) (zip ?Rb ?Cb) = R"
  proof -
    have "map (\<lambda>p. cdiv (snd p + fst p * m) ?nc) (zip ?Rb ?Cb) = map fst ?zs"
      unfolding zb' map_map comp_def fst_conv snd_conv zz by (rule map_cong[OF refl]) (simp add: bk)
    then show ?thesis using R(4) by simp
  qed
  have e4: "map (\<lambda>p. cmod (snd p + fst p * m) ?nc) (zip ?Rb ?Cb) = ?C"
  proof -
    have "map (\<lambda>p. cmod (snd p + fst p * m) ?nc) (zip ?Rb ?Cb) = map snd ?zs"
      unfolding zb' map_map comp_def fst_conv snd_conv zz by (rule map_cong[OF refl]) (simp add: bk)
    then show ?thesis using R(4) by simp
  qed
  have nza: "sp_NZ R ?C ?nr ?nc True = Inr a"
    using sp_NZ_sorted[OF n0 R(4) R(2,3), of ?nc] CRSSparsity_eq_offsets[OF assms(1) R(1)] by simp
  have vb: "vector (sp_size ?b) 0 = Inr (replicate (length ?Rb) 0)"
    by (simp add: vector_def sp_size_def CRSSparsity_new_def)
  have sb: "upto_n (sp_size ?b) = upto_n (int (length ?Rb))"
    by (simp add: sp_size_def CRSSparsity_new_def)
  have cb: "colRef ?b = ?Cb" "size2 ?b = m" "size1 ?b = n" by (simp_all add: CRSSparsity_new_def)
  have nb: "numel ?b = int32 (?nr * ?nc)" using assms(5) by (simp add: numel_def CRSSparsity_new_def)
  have rt: "reshape ?b ?nr ?nc = Inr a"
    unfolding reshape_def gb vb sb cb using nb lp2 e3 e4 nza by simp
  show ?thesis
    apply (rule exI[of _ R], rule exI[of _ ?b], rule exI[of _ ?Rb])
    using R(1) rb gb ib zb' rt cb by simp
qed

theorem reshape_round_trip_witness:
  "invariant \<lparr>size1 = 2, size2 = 3, colRef = [0, 2, 1], rowindRef = [0, 2, 3]\<rparr> \<and>
   columnsSequential \<lparr>size1 = 2, size2 = 3, colRef = [0, 2, 1], rowindRef = [0, 2, 3]\<rparr> False \<and>
   (3::int) * 2 = size1 \<lparr>size1 = 2, size2 = 3, colRef = [0, 2, 1], rowindRef = [0, 2, 3]\<rparr> *
                  size2 \<lparr>size1 = 2, size2 = 3, colRef = [0, 2, 1], rowindRef = [0, 2, 3]\<rparr> \<and>
   (3::int) * 2 < 2 ^ 31 \<and>
   (\<exists>b. reshape \<lparr>size1 = 2, size2 = 3, colRef = [0, 2, 1], rowindRef = [0, 2, 3]\<rparr> 3 2 = Inr b \<and>
        invariant b \<and>
        reshape b 2 3 = Inr \<lparr>size1 = 2, size2 = 3, colRef = [0, 2, 1], rowindRef = [0, 2, 3]\<rparr>) \<and>
   reshape \<lparr>size1 = 2, size2 = 3, colRef = [0, 2, 1], rowindRef = [0, 2, 3]\<rparr> 3 2 =
     Inr \<lparr>size1 = 3, size2 = 2, colRef = [0, 0, 0], rowindRef = [0, 1, 2, 3]\<rparr>"
proof -
  let ?a = "\<lparr>size1 = 2, size2 = 3, colRef = [0, 2, 1], rowindRef = [0, 2, 3]\<rparr>"
  have inv: "invariant ?a" by code_simp
  have sq: "columnsSequential ?a False" by code_simp
  have nm: "(3::int) * 2 = size1 ?a * size2 ?a" by simp
  have bd: "size1 ?a * size2 ?a < 2 ^ 31" by simp
  have r1: "(3::int) < 2 ^ 31 - 1" "(2::int) < 2 ^ 31" "size1 ?a < 2 ^ 31 - 1" "size2 ?a < 2 ^ 31"
    by simp_all
  have ex: "\<exists>b. reshape ?a 3 2 = Inr b \<and> invariant b \<and> reshape b 2 3 = Inr ?a"
    using reshape_round_trip[OF inv sq _ _ nm bd r1] by auto
  have r: "reshape ?a 3 2 = Inr \<lparr>size1 = 3, size2 = 2, colRef = [0, 0, 0], rowindRef = [0, 1, 2, 3]\<rparr>"
    by code_simp
  show ?thesis using inv sq ex r by simp
qed

text \<open>
  The pattern with the single row \<open>[3, 0]\<close> satisfies the invariant but its columns are not
  sorted.  Reshaped to 2 by 2, its nonzero \<open>(0, 3)\<close> should land at \<open>(1, 1)\<close>; the result
  holds \<open>(0, 1)\<close> and \<open>(1, 0)\<close> instead, and reshaping back gives the nonzeros \<open>(0, 1)\<close>
  and \<open>(0, 2)\<close>, not \<open>(0, 3)\<close> and \<open>(0, 0)\<close>.

  The pattern of shape 3 by \<open>2^30\<close> with the single nonzero \<open>(2, 0)\<close> has sorted columns, and
  6 by \<open>2^29\<close> is a shape with the same number of elements.  The flat index of the nonzero
  is \<open>2^31\<close>, which the 32-bit \<open>int\<close> holds as \<open>- 2^31\<close>: the new row is \<open>- 4\<close> and the
  bounds check of \<open>sp_NZ\<close> raises its error.
\<close>

theorem reshape_unsorted_counterexample:
  "invariant \<lparr>size1 = 1, size2 = 4, colRef = [3, 0], rowindRef = [0, 2]\<rparr> \<and>
   getRow \<lparr>size1 = 1, size2 = 4, colRef = [3, 0], rowindRef = [0, 2]\<rparr> = Inr [0, 0] \<and>
   reshape \<lparr>size1 = 1, size2 = 4, colRef = [3, 0], rowindRef = [0, 2]\<rparr> 2 2 =
     Inr \<lparr>size1 = 2, size2 = 2, colRef = [1, 0], rowindRef = [0, 1, 2]\<rparr> \<and>
   getRow \<lparr>size1 = 2, size2 = 2, colRef = [1, 0], rowindRef = [0, 1, 2]\<rparr> = Inr [0, 1] \<and>
   ((3 + 0 * 4) div 2, (3 + 0 * 4) mod 2) \<notin> set (zip [0, 1 :: int] [1, 0 :: int]) \<and>
   reshape \<lparr>size1 = 2, size2 = 2, colRef = [1, 0], rowindRef = [0, 1, 2]\<rparr> 1 4 =
     Inr \<lparr>size1 = 1, size2 = 4, colRef = [1, 2], rowindRef = [0, 2]\<rparr> \<and>
   set (zip [0, 0 :: int] [1, 2 :: int]) \<noteq> set (zip [0, 0 :: int] [3, 0 :: int]) \<and>
   invariant \<lparr>size1 = 3, size2 = 1073741824, colRef = [0], rowindRef = [0, 0, 0, 1]\<rparr> \<and>
   columnsSequential \<lparr>size1 = 3, size2 = 1073741824, colRef = [0], rowindRef = [0, 0, 0, 1]\<rparr> False \<and>
   (6::int) * 536870912 = 3 * 1073741824 \<and>
   reshape \<lparr>size1 = 3, size2 = 1073741824, colRef = [0], rowindRef = [0, 0, 0, 1]\<rparr> 6 536870912 =
     Inl NZOutOfRange"
  by code_simp

section \<open>The loops of \<open>sp_triplet\<close>\<close>

lemma count_loop_ok:
  assumes "int (length rc) = nrow + 1" "\<forall>r \<in> set xs. - 1 \<le> r \<and> r < nrow"
  shows "\<exists>rc'. for_each (triplet_count_body nrow) xs rc = Inr rc' \<and> length rc' = length rc \<and>
           (\<forall>i < length rc. rc' ! i = rc ! i + int (length (filter (\<lambda>x. x + 1 = int i) xs)))"
  using assms
proof (induction xs arbitrary: rc)
  case Nil
  then show ?case by simp
next
  case (Cons r xs)
  have r: "- 1 \<le> r" "r < nrow" using Cons.prems(2) by auto
  let ?rc1 = "rc[nat (r + 1) := rc ! nat (r + 1) + 1]"
  have b: "triplet_count_body nrow r rc = Inr ?rc1"
    using r Cons.prems(1) by (simp add: triplet_count_body_def load_def store_def)
  obtain rc' where rc': "for_each (triplet_count_body nrow) xs ?rc1 = Inr rc'" "length rc' = length ?rc1"
    "\<forall>i < length ?rc1. rc' ! i = ?rc1 ! i + int (length (filter (\<lambda>x. x + 1 = int i) xs))"
    using Cons.IH[of ?rc1] Cons.prems by auto
  have "\<forall>i < length rc. rc' ! i = rc ! i + int (length (filter (\<lambda>x. x + 1 = int i) (r # xs)))"
  proof (intro allI impI)
    fix i assume i: "i < length rc"
    show "rc' ! i = rc ! i + int (length (filter (\<lambda>x. x + 1 = int i) (r # xs)))"
    proof (cases "r + 1 = int i")
      case True
      then have "nat (r + 1) = i" by simp
      then show ?thesis using rc'(3) i True by simp
    next
      case False
      then have "nat (r + 1) \<noteq> i" using r(1) by auto
      then show ?thesis using rc'(3) i False by simp
    qed
  qed
  then show ?case using b rc'(1,2) by simp
qed

lemma count_loop_err:
  assumes "int (length rc) = nrow + 1" "find (\<lambda>r. r < - 1 \<or> nrow \<le> r) xs = Some r"
  shows "for_each (triplet_count_body nrow) xs rc =
           Inl (if nrow \<le> r then TripletRowBounds else UndefinedBehaviour)"
  using assms
proof (induction xs arbitrary: rc)
  case Nil
  then show ?case by simp
next
  case (Cons x xs)
  show ?case
  proof (cases "x < - 1 \<or> nrow \<le> x")
    case True
    then have "r = x" using Cons.prems(2) by simp
    then show ?thesis using True Cons.prems(1)
      by (auto simp: triplet_count_body_def load_def)
  next
    case False
    let ?rc1 = "rc[nat (x + 1) := rc ! nat (x + 1) + 1]"
    have b: "triplet_count_body nrow x rc = Inr ?rc1"
      using False Cons.prems(1) by (simp add: triplet_count_body_def load_def store_def)
    have "find (\<lambda>r. r < - 1 \<or> nrow \<le> r) xs = Some r" using Cons.prems(2) False by simp
    then show ?thesis using Cons.IH[of ?rc1] Cons.prems(1) b by simp
  qed
qed

lemma for_each_error_kind:
  assumes "\<And>x s e. body x s = Inl e \<Longrightarrow> P e" "for_each body xs s = Inl e"
  shows "P e"
  using assms(2)
proof (induction xs arbitrary: s)
  case Nil
  then show ?case by simp
next
  case (Cons x xs)
  then show ?case using assms(1) by (auto split: sum.splits)
qed

lemma cumsum_loop:
  assumes "0 \<le> nrow" "int (length rc) = nrow + 1" "rc ! 0 = 0"
  shows "\<exists>rc'. for_each cumsum_body (upto_n nrow) rc = Inr rc' \<and> length rc' = length rc \<and>
           (\<forall>i < length rc. rc' ! i = sum_list (take (Suc i) rc))"
proof -
  let ?n = "nat nrow"
  let ?I = "\<lambda>i rc'. length rc' = length rc \<and>
              (\<forall>j < length rc. rc' ! j = (if j \<le> i then sum_list (take (Suc j) rc) else rc ! j))"
  have "\<exists>s'. for_each cumsum_body (map int [0..<?n]) rc = Inr s' \<and> ?I ?n s'"
  proof (rule for_each_upto_invariant[where P = ?I])
    show "?I 0 rc" using assms(3) by (cases rc) auto
  next
    fix i s assume i: "i < ?n" and s: "?I i s"
    have len: "length s = length rc" "Suc i < length rc" using s i assms(2) by auto
    have si: "s ! i = sum_list (take (Suc i) rc)" "s ! Suc i = rc ! Suc i"
      using s len by auto
    have b: "cumsum_body (int i) s = Inr (s[Suc i := s ! Suc i + s ! i])"
      using len by (simp add: cumsum_body_def load_def store_def nat_add_distrib)
    have "sum_list (take (Suc (Suc i)) rc) = sum_list (take (Suc i) rc) + rc ! Suc i"
      using len(2) by (simp add: take_Suc_conv_app_nth[of "Suc i"])
    then have "?I (Suc i) (s[Suc i := s ! Suc i + s ! i])"
      using s len si by (auto simp: nth_list_update less_Suc_eq_le)
    then show "\<exists>s'. cumsum_body (int i) s = Inr s' \<and> ?I (Suc i) s'" using b by blast
  qed
  then obtain rc' where rc': "for_each cumsum_body (map int [0..<?n]) rc = Inr rc'" "?I ?n rc'" by blast
  have "\<forall>i < length rc. rc' ! i = sum_list (take (Suc i) rc)"
    using rc'(2) assms(2) by auto
  then show ?thesis using rc' by (auto simp: upto_n_def)
qed

lemma sum_take_counts:
  assumes "\<forall>r \<in> set row. (0::int) \<le> r"
    and "\<forall>j < length rc. rc ! j = int (length (filter (\<lambda>x. x + 1 = int j) row))"
  shows "i < length rc \<Longrightarrow> sum_list (take (Suc i) rc) = int (length (filter (\<lambda>x. x < int i) row))"
proof (induction i)
  case 0
  have "filter (\<lambda>x. x + 1 = 0) row = []" "filter (\<lambda>x. x < 0) row = []"
    using assms(1) by (auto simp: filter_empty_conv)
  then show ?case using 0 assms(2) by (cases rc) auto
next
  case (Suc i)
  have "length (filter (\<lambda>x. x < int (Suc i)) row) =
        length (filter (\<lambda>x. x < int i) row) + length (filter (\<lambda>x. x + 1 = int (Suc i)) row)"
    by (induction row) auto
  moreover have "sum_list (take (Suc (Suc i)) rc) = sum_list (take (Suc i) rc) + rc ! Suc i"
    using Suc.prems by (simp add: take_Suc_conv_app_nth[of "Suc i"])
  ultimately show ?case using Suc assms(2) by simp
qed

lemma count_cumsum:
  assumes "0 \<le> nrow" "\<forall>r \<in> set row. 0 \<le> r \<and> r < nrow"
  shows "\<exists>rc1. for_each (triplet_count_body nrow) row (replicate (nat (nrow + 1)) 0) = Inr rc1 \<and>
           for_each cumsum_body (upto_n nrow) rc1 = Inr (offsets row nrow)"
proof -
  let ?rc0 = "replicate (nat (nrow + 1)) (0::int)"
  have l0: "int (length ?rc0) = nrow + 1" using assms(1) by simp
  have "\<forall>r \<in> set row. - 1 \<le> r \<and> r < nrow" using assms(2) by fastforce
  then obtain rc1 where rc1: "for_each (triplet_count_body nrow) row ?rc0 = Inr rc1"
    "length rc1 = length ?rc0"
    "\<forall>i < length ?rc0. rc1 ! i = ?rc0 ! i + int (length (filter (\<lambda>x. x + 1 = int i) row))"
    using count_loop_ok[OF l0, of row] by blast
  have c: "\<forall>j < length rc1. rc1 ! j = int (length (filter (\<lambda>x. x + 1 = int j) row))"
    using rc1(2,3) by simp
  have "filter (\<lambda>x. x + 1 = 0) row = []" using assms(2) by (auto simp: filter_empty_conv)
  then have z: "rc1 ! 0 = 0" using c rc1(2) assms(1) by simp
  have l1: "int (length rc1) = nrow + 1" using rc1(2) l0 by simp
  obtain rc2 where rc2: "for_each cumsum_body (upto_n nrow) rc1 = Inr rc2" "length rc2 = length rc1"
    "\<forall>i < length rc1. rc2 ! i = sum_list (take (Suc i) rc1)"
    using cumsum_loop[OF assms(1) l1 z] by blast
  have nn: "\<forall>r \<in> set row. 0 \<le> r" using assms(2) by auto
  have "rc2 = offsets row nrow"
  proof (rule nth_equalityI)
    show "length rc2 = length (offsets row nrow)"
      using rc2(2) rc1(2) assms(1) by (simp add: nat_add_distrib)
  next
    fix i assume "i < length rc2"
    then have i: "i < length rc1" using rc2(2) by simp
    then have "i \<le> nat nrow" using l1 by linarith
    then show "rc2 ! i = offsets row nrow ! i"
      using rc2(3) i sum_take_counts[OF nn c i] by (simp add: nth_offsets)
  qed
  then show ?thesis using rc1(1) rc2(1) by blast
qed

lemma bucket_items_Suc:
  "bucket_items row b (Suc k) = bucket_items row b k @ (if row ! k = int b then [k] else [])"
  by (simp add: bucket_items_def)

lemma length_bucket_items_mono: "k \<le> n \<Longrightarrow> length (bucket_items row b k) \<le> length (bucket_items row b n)"
proof (induction n)
  case 0
  then show ?case by simp
next
  case (Suc n)
  then show ?case by (cases "k = Suc n") (auto simp: bucket_items_Suc)
qed

lemma length_bucket_items_less:
  assumes "k < n" "row ! k = int b"
  shows "length (bucket_items row b k) < length (bucket_items row b n)"
proof -
  have "length (bucket_items row b (Suc k)) = Suc (length (bucket_items row b k))"
    using assms(2) by (simp add: bucket_items_Suc)
  then show ?thesis using length_bucket_items_mono[of "Suc k" n row b] assms(1) by simp
qed

lemma length_bucket_items_all:
  "length (bucket_items row b (length row)) = length (filter (\<lambda>x. x = int b) row)"
proof -
  have "map (\<lambda>j. row ! j) (filter (\<lambda>j. row ! j = int b) [0..<length row]) = filter (\<lambda>x. x = int b) row"
    by (rule filter_by_index)
  then show ?thesis unfolding bucket_items_def by (metis length_map)
qed

lemma bucket_start_Suc:
  "bucket_start row (Suc b) = bucket_start row b + length (bucket_items row b (length row))"
proof -
  have "length (filter (\<lambda>x. x < int (Suc b)) row) =
        length (filter (\<lambda>x. x < int b) row) + length (filter (\<lambda>x. x = int b) row)"
    by (induction row) auto
  then show ?thesis by (simp add: bucket_start_def length_bucket_items_all)
qed

lemma bucket_start_mono: "b \<le> b' \<Longrightarrow> bucket_start row b \<le> bucket_start row b'"
  unfolding bucket_start_def by (intro length_filter_mono) auto

lemma bucket_start_le: "bucket_start row b \<le> length row"
  by (simp add: bucket_start_def)

lemma concat_slices:
  assumes "\<And>b. b < nb \<Longrightarrow> st (Suc b) = st b + length (L b)" "st 0 = (0::nat)" "length xs = st nb"
    and "\<And>b t. b < nb \<Longrightarrow> t < length (L b) \<Longrightarrow> xs ! (st b + t) = L b ! t"
  shows "xs = concat (map L [0..<nb])"
proof -
  have mono: "\<And>m. m \<le> nb \<Longrightarrow> st m \<le> st nb"
  proof -
    fix m show "m \<le> nb \<Longrightarrow> st m \<le> st nb"
    proof (induction "nb - m" arbitrary: m)
      case 0
      then show ?case by simp
    next
      case (Suc d)
      then have "Suc m \<le> nb" "d = nb - Suc m" by auto
      then have "st (Suc m) \<le> st nb" using Suc.hyps(1) by blast
      moreover have "st (Suc m) = st m + length (L m)" using assms(1) \<open>Suc m \<le> nb\<close> by simp
      ultimately show ?case by simp
    qed
  qed
  have "\<And>m. m \<le> nb \<Longrightarrow> take (st m) xs = concat (map L [0..<m])"
  proof -
    fix m show "m \<le> nb \<Longrightarrow> take (st m) xs = concat (map L [0..<m])"
    proof (induction m)
      case 0
      then show ?case using assms(2) by simp
    next
      case (Suc m)
      then have m: "m < nb" by simp
      have st: "st (Suc m) = st m + length (L m)" using assms(1) m by simp
      have le: "st m + length (L m) \<le> length xs" using mono[of "Suc m"] Suc.prems st assms(3) by simp
      have "take (length (L m)) (drop (st m) xs) = L m"
      proof (rule nth_equalityI)
        show "length (take (length (L m)) (drop (st m) xs)) = length (L m)" using le by simp
      next
        fix t assume "t < length (take (length (L m)) (drop (st m) xs))"
        then have t: "t < length (L m)" by simp
        then show "take (length (L m)) (drop (st m) xs) ! t = L m ! t"
          using assms(4)[OF m t] le by simp
      qed
      then show ?case using Suc st by (simp add: take_add)
    qed
  qed
  from this[of nb] show ?thesis using assms(3) by simp
qed

lemma bucket_slot_less:
  assumes "t < length (bucket_items row b (length row))"
  shows "bucket_start row b + t < bucket_start row (Suc b)" "bucket_start row b + t < length row"
proof -
  show "bucket_start row b + t < bucket_start row (Suc b)"
    using assms by (simp add: bucket_start_Suc)
  then show "bucket_start row b + t < length row"
    using bucket_start_le[of row "Suc b"] by simp
qed

lemma bucket_slot_disjoint:
  assumes "b \<noteq> b0" "t < length (bucket_items row b (length row))"
    "s < length (bucket_items row b0 (length row))"
  shows "bucket_start row b + t \<noteq> bucket_start row b0 + s"
proof (cases "b < b0")
  case True
  then have "bucket_start row (Suc b) \<le> bucket_start row b0" by (intro bucket_start_mono) simp
  then show ?thesis using bucket_slot_less(1)[OF assms(2)] by simp
next
  case False
  then have "bucket_start row (Suc b0) \<le> bucket_start row b" using assms(1) by (intro bucket_start_mono) simp
  then show ?thesis using bucket_slot_less(1)[OF assms(3)] by simp
qed

lemma scatter_step:
  assumes "0 \<le> nrow" "length row = length col" "\<forall>r \<in> set row. 0 \<le> r \<and> r < nrow"
    and k: "k < length row" and inv: "scatter_inv nrow row col k s"
  shows "\<exists>s'. scatter_body row col (int k) s = Inr s' \<and> scatter_inv nrow row col (Suc k) s'"
proof -
  obtain rcur mp nc where s: "s = (rcur, mp, nc)" by (cases s)
  let ?n = "length row"
  let ?b0 = "nat (row ! k)"
  have r: "0 \<le> row ! k" "row ! k < nrow" using assms(3) k by auto
  then have b0: "?b0 < nat nrow" "int ?b0 = row ! k" by auto
  let ?B = "\<lambda>b j. bucket_items row b j"
  let ?st = "bucket_start row"
  let ?newk = "?st ?b0 + length (?B ?b0 k)"
  have I: "length rcur = Suc (nat nrow)" "length mp = ?n" "length nc = ?n"
    "\<forall>b < nat nrow. rcur ! b = int (?st b + length (?B b k))"
    "\<forall>b < nat nrow. \<forall>t < length (?B b k).
        mp ! (?st b + t) = int (?B b k ! t) \<and> nc ! (?st b + t) = col ! (?B b k ! t)"
    using inv unfolding scatter_inv_def s by auto
  have lt: "length (?B ?b0 k) < length (?B ?b0 ?n)"
    using length_bucket_items_less[OF k, where b = ?b0] b0(2) by simp
  have newk: "?newk < ?n" using bucket_slot_less(2)[OF lt] .
  have ld: "load rcur (row ! k) = Inr (int ?newk)"
    using I(1,4) b0 r by (simp add: load_def)
  have st1: "store rcur (row ! k) (int ?newk + 1) = Inr (rcur[?b0 := int ?newk + 1])"
    using I(1) b0 r by (simp add: store_def)
  let ?s' = "(rcur[?b0 := int ?newk + 1], mp[?newk := int k], nc[?newk := col ! k])"
  have lr: "load row (int k) = Inr (row ! k)" using k by (rule load_nth)
  have lc: "load col (int k) = Inr (col ! k)" using k assms(2) by (intro load_nth) simp
  have st2: "store mp (int ?newk) (int k) = Inr (mp[?newk := int k])"
    using newk I(2) by (intro store_nth) simp
  have st3: "store nc (int ?newk) (col ! k) = Inr (nc[?newk := col ! k])"
    using newk I(3) by (intro store_nth) simp
  have body: "scatter_body row col (int k) s = Inr ?s'"
    unfolding scatter_body_def s prod.case lr ld st1 st2 lc st3 sum.case ..
  have B': "\<And>b. ?B b (Suc k) = ?B b k @ (if b = ?b0 then [k] else [])"
    using b0(2) by (auto simp: bucket_items_Suc)
  have "scatter_inv nrow row col (Suc k) ?s'"
    unfolding scatter_inv_def prod.case
  proof (intro conjI allI impI)
    show "length (rcur[?b0 := int ?newk + 1]) = Suc (nat nrow)" using I(1) by simp
    show "length (mp[?newk := int k]) = ?n" using I(2) by simp
    show "length (nc[?newk := col ! k]) = ?n" using I(3) by simp
  next
    fix b assume b: "b < nat nrow"
    show "rcur[?b0 := int ?newk + 1] ! b = int (?st b + length (?B b (Suc k)))"
      using I(1,4) b b0(1) by (cases "b = ?b0") (auto simp: B')
  next
    fix b t assume b: "b < nat nrow" and t: "t < length (?B b (Suc k))"
    have slot: "mp[?newk := int k] ! (?st b + t) = int (?B b (Suc k) ! t) \<and>
          nc[?newk := col ! k] ! (?st b + t) = col ! (?B b (Suc k) ! t)"
    proof (cases "b = ?b0")
      case True
      show ?thesis
      proof (cases "t = length (?B ?b0 k)")
        case t': True
        then show ?thesis using True newk I(2,3) by (simp add: B')
      next
        case False
        then have t': "t < length (?B ?b0 k)" using t True by (simp add: B')
        then have "?st ?b0 + t \<noteq> ?newk" by simp
        then show ?thesis using True t' I(5) b0(1) by (simp add: B' nth_append)
      qed
    next
      case False
      then have t': "t < length (?B b k)" using t by (simp add: B')
      then have "t < length (?B b ?n)"
        using length_bucket_items_mono[of k ?n row b] k by simp
      then have "?st b + t \<noteq> ?newk" using bucket_slot_disjoint[OF False _ lt] by blast
      then show ?thesis using False t' I(5) b by (simp add: B')
    qed
    show "mp[?newk := int k] ! (?st b + t) = int (?B b (Suc k) ! t)" using slot by blast
    show "nc[?newk := col ! k] ! (?st b + t) = col ! (?B b (Suc k) ! t)" using slot by blast
  qed
  then show ?thesis using body by blast
qed

lemma bucket_sort_upto_n:
  "bucket_sort nb (\<lambda>k. row ! nat k) (upto_n (int n)) =
     map int (concat (map (\<lambda>b. bucket_items row b n) [0..<nb]))"
proof -
  have "\<And>b. filter (\<lambda>x. row ! nat x = int b) (map int [0..<n]) = map int (bucket_items row b n)"
    by (simp add: filter_map comp_def bucket_items_def)
  then show ?thesis
    by (simp add: bucket_sort_def upto_n_def map_concat comp_def)
qed

lemma scatter_loop:
  assumes "0 \<le> nrow" "length row = length col" "\<forall>r \<in> set row. 0 \<le> r \<and> r < nrow"
    and "length mapping0 = length row"
  shows "\<exists>rc'. for_each (scatter_body row col) (upto_n (int (length row)))
                 (offsets row nrow, mapping0, col) =
           Inr (rc', bucket_sort (nat nrow) (\<lambda>k. row ! nat k) (upto_n (int (length row))),
                map (\<lambda>k. col ! nat k)
                  (bucket_sort (nat nrow) (\<lambda>k. row ! nat k) (upto_n (int (length row)))))"
proof -
  let ?n = "length row" and ?nb = "nat nrow"
  let ?B = "\<lambda>b. bucket_items row b ?n"
  have init: "scatter_inv nrow row col 0 (offsets row nrow, mapping0, col)"
    unfolding scatter_inv_def using assms(2,4)
    by (simp add: nth_offsets bucket_start_def bucket_items_def)
  have "\<exists>s'. for_each (scatter_body row col) (map int [0..<?n]) (offsets row nrow, mapping0, col) = Inr s' \<and>
          scatter_inv nrow row col ?n s'"
    by (rule for_each_upto_invariant[where P = "scatter_inv nrow row col", OF init])
       (rule scatter_step[OF assms(1,2,3)])
  then obtain rc' mp nc where
    run: "for_each (scatter_body row col) (map int [0..<?n]) (offsets row nrow, mapping0, col) = Inr (rc', mp, nc)"
    and I: "length mp = ?n" "length nc = ?n"
      "\<forall>b < ?nb. \<forall>t < length (?B b).
          mp ! (bucket_start row b + t) = int (?B b ! t) \<and> nc ! (bucket_start row b + t) = col ! (?B b ! t)"
    unfolding scatter_inv_def by auto
  have all: "bucket_start row ?nb = ?n"
    using assms(1,3) by (simp add: bucket_start_def filter_id_conv[THEN iffD2])
  have mp: "mp = concat (map (\<lambda>b. map int (?B b)) [0..<?nb])"
  proof (rule concat_slices[where st = "bucket_start row"])
    show "\<And>b. b < ?nb \<Longrightarrow> bucket_start row (Suc b) = bucket_start row b + length (map int (?B b))"
      by (simp add: bucket_start_Suc)
    show "bucket_start row 0 = 0" using assms(3) by (auto simp: bucket_start_def filter_empty_conv)
    show "length mp = bucket_start row ?nb" using I(1) all by simp
    show "\<And>b t. b < ?nb \<Longrightarrow> t < length (map int (?B b)) \<Longrightarrow>
            mp ! (bucket_start row b + t) = map int (?B b) ! t"
      using I(3) by simp
  qed
  have nc: "nc = concat (map (\<lambda>b. map (\<lambda>j. col ! j) (?B b)) [0..<?nb])"
  proof (rule concat_slices[where st = "bucket_start row"])
    show "\<And>b. b < ?nb \<Longrightarrow> bucket_start row (Suc b) = bucket_start row b + length (map (\<lambda>j. col ! j) (?B b))"
      by (simp add: bucket_start_Suc)
    show "bucket_start row 0 = 0" using assms(3) by (auto simp: bucket_start_def filter_empty_conv)
    show "length nc = bucket_start row ?nb" using I(2) all by simp
    show "\<And>b t. b < ?nb \<Longrightarrow> t < length (map (\<lambda>j. col ! j) (?B b)) \<Longrightarrow>
            nc ! (bucket_start row b + t) = map (\<lambda>j. col ! j) (?B b) ! t"
      using I(3) by simp
  qed
  have m1: "bucket_sort ?nb (\<lambda>k. row ! nat k) (upto_n (int ?n)) = mp"
    unfolding bucket_sort_upto_n mp by (simp add: map_concat comp_def)
  have m2: "map (\<lambda>k. col ! nat k) mp = nc"
    unfolding mp nc by (simp add: map_concat comp_def)
  show ?thesis using run unfolding m1 m2 by (simp add: upto_n_def)
qed

lemma length_resize [simp]: "length (resize v n) = n"
  by (simp add: resize_def)

lemma sp_triplet_front:
  assumes "0 \<le> nrow" "length row = length col" "\<forall>r \<in> set row. 0 \<le> r \<and> r < nrow"
  shows "sp_triplet_mapping nrow ncol row col mapping0 srt =
     (case triplet_sort_columns srt
             (CRSSparsity_new nrow ncol (map (\<lambda>k. col ! nat k) (scattered nrow row)) (offsets row nrow))
             (scattered nrow row) of
        Inl e \<Rightarrow> Inl e
      | Inr (ret, mapping') \<Rightarrow> triplet_remove_duplicates srt ret mapping')"
proof -
  have v: "vector (nrow + 1) 0 = Inr (replicate (nat (nrow + 1)) 0)"
    using assms(1) by (simp add: vector_def)
  obtain rc1 where c: "for_each (triplet_count_body nrow) row (replicate (nat (nrow + 1)) 0) = Inr rc1"
    "for_each cumsum_body (upto_n nrow) rc1 = Inr (offsets row nrow)"
    using count_cumsum[OF assms(1,3)] by blast
  obtain rc' where s: "for_each (scatter_body row col) (upto_n (int (length row)))
                 (offsets row nrow, resize mapping0 (length col), col) =
           Inr (rc', scattered nrow row, map (\<lambda>k. col ! nat k) (scattered nrow row))"
    using scatter_loop[OF assms, of "resize mapping0 (length col)"] assms(2)
    unfolding scattered_def by auto
  show ?thesis
    unfolding sp_triplet_mapping_def v using assms(2) c s by simp
qed

lemma sp_triplet_hint_true:
  assumes "0 \<le> nrow" "length row = length col" "\<forall>r \<in> set row. 0 \<le> r \<and> r < nrow"
  shows "sp_triplet_mapping nrow ncol row col mapping0 True =
           Inr (CRSSparsity_new nrow ncol (map (\<lambda>k. col ! nat k) (scattered nrow row)) (offsets row nrow),
                scattered nrow row)"
  unfolding sp_triplet_front[OF assms]
  by (simp add: triplet_sort_columns_def triplet_remove_duplicates_def)

lemma scattered_sorted:
  assumes "0 \<le> nrow" "sorted row" "\<forall>r \<in> set row. 0 \<le> r \<and> r < nrow"
  shows "scattered nrow row = upto_n (int (length row))"
  unfolding scattered_def
proof (rule bucket_sort_sorted_id)
  have "map (\<lambda>k. row ! nat k) (upto_n (int (length row))) = row"
    by (simp add: upto_n_def comp_def map_nth)
  then show "sorted (map (\<lambda>k. row ! nat k) (upto_n (int (length row))))" using assms(2) by simp
  show "\<forall>x \<in> set (upto_n (int (length row))). 0 \<le> row ! nat x \<and> row ! nat x < int (nat nrow)"
    using assms(1,3) by (auto simp: upto_n_def)
qed

lemma sorted_pairs_rows:
  assumes "length row = length col"
    and "sorted_wrt (\<lambda>p q. fst p < fst q \<or> (fst p = fst q \<and> snd p < snd q)) (zip row col)"
  shows "sorted (row :: int list)"
proof -
  have "sorted_wrt (\<lambda>p q. fst p \<le> fst q) (zip row col)"
    by (rule sorted_wrt_mono_rel[OF _ assms(2)]) auto
  then have "sorted (map fst (zip row col))" by (simp add: sorted_map)
  then show ?thesis using assms(1) by simp
qed

text \<open>
  Claim C7.  When the sorted hint is true and the list of (row, column) pairs is sorted by
  row, then by column, without duplicate pairs (with equal lengths and row indices within
  \<open>[0, nrow)\<close>, as the assembler requires), the returned mapping is the identity
  permutation \<open>[0, 1, ..., nnz - 1]\<close>, whatever the caller's vector held on entry.
\<close>

theorem sp_triplet_sorted_identity:
  assumes "0 \<le> nrow" "length row = length col" "\<forall>r \<in> set row. 0 \<le> r \<and> r < nrow"
    and "sorted_wrt (\<lambda>p q. fst p < fst q \<or> (fst p = fst q \<and> snd p < snd q)) (zip row col)"
  shows "\<exists>ret mapping. sp_triplet_mapping nrow ncol row col mapping0 True = Inr (ret, mapping) \<and>
           sp_size ret = int (length row) \<and> mapping = upto_n (sp_size ret) \<and>
           colRef ret = col"
proof -
  have srt: "sorted row" using sorted_pairs_rows[OF assms(2,4)] .
  have m: "scattered nrow row = upto_n (int (length row))"
    using scattered_sorted[OF assms(1) srt assms(3)] .
  have c: "map (\<lambda>k. col ! nat k) (upto_n (int (length row))) = col"
    using assms(2) by (simp add: upto_n_def comp_def map_nth)
  show ?thesis
    unfolding sp_triplet_hint_true[OF assms(1,2,3)] m c
    using assms(2) by (simp add: sp_size_def CRSSparsity_new_def)
qed

theorem sp_triplet_sorted_identity_witness:
  "(\<exists>ret mapping. sp_triplet_mapping 2 2 [0, 1, 1] [1, 0, 1] [7, 7] True = Inr (ret, mapping) \<and>
      sp_size ret = 3 \<and> mapping = upto_n (sp_size ret)) \<and>
   sp_triplet_mapping 2 2 [0, 1, 1] [1, 0, 1] [7, 7] True =
     Inr (\<lparr>size1 = 2, size2 = 2, colRef = [1, 0, 1], rowindRef = [0, 1, 3]\<rparr>, [0, 1, 2])"
proof -
  have h: "\<forall>r \<in> set [0, 1, 1 :: int]. 0 \<le> r \<and> r < 2" by simp
  have s: "sorted_wrt (\<lambda>p q. fst p < fst q \<or> (fst p = fst q \<and> snd p < snd q))
             (zip [0, 1, 1 :: int] [1, 0, 1 :: int])" by simp
  have "\<exists>ret mapping. sp_triplet_mapping 2 2 [0, 1, 1] [1, 0, 1] [7, 7] True = Inr (ret, mapping) \<and>
      sp_size ret = 3 \<and> mapping = upto_n (sp_size ret)"
    using sp_triplet_sorted_identity[OF _ _ h s, of 2 "[7, 7]"] by auto
  moreover have "sp_triplet_mapping 2 2 [0, 1, 1] [1, 0, 1] [7, 7] True =
     Inr (\<lparr>size1 = 2, size2 = 2, colRef = [1, 0, 1], rowindRef = [0, 1, 3]\<rparr>, [0, 1, 2])"
    by code_simp
  ultimately show ?thesis by blast
qed

section \<open>The input validation of \<open>sp_triplet\<close>\<close>

lemma load_error: "load v i = Inl e \<Longrightarrow> e = UndefinedBehaviour"
  by (auto simp: load_def split: if_splits)

lemma store_error: "store v i x = Inl e \<Longrightarrow> e = UndefinedBehaviour"
  by (auto simp: store_def split: if_splits)

lemma vector_error: "vector n x = Inl e \<Longrightarrow> e = UndefinedBehaviour"
  by (auto simp: vector_def split: if_splits)

lemma getRow_error: "getRow a = Inl e \<Longrightarrow> e = UndefinedBehaviour"
  by (auto simp: getRow_def split: if_splits)

lemma transpose_error: "transpose a = Inl e \<Longrightarrow> e = UndefinedBehaviour"
  by (auto simp: transpose_def Let_def dest: getRow_error split: sum.splits if_splits)

lemma removeDuplicates_error: "removeDuplicates a mapping = Inl e \<Longrightarrow> e = UndefinedBehaviour"
  by (auto simp: removeDuplicates_def Let_def dest: getRow_error split: sum.splits if_splits)

lemma cumsum_error: "for_each cumsum_body xs s = Inl e \<Longrightarrow> e = UndefinedBehaviour"
proof (rule for_each_error_kind[where body = cumsum_body and P = "\<lambda>e. e = UndefinedBehaviour"])
  fix x s e assume "cumsum_body x s = Inl e"
  then show "e = UndefinedBehaviour"
    by (auto simp: cumsum_body_def dest: load_error store_error split: sum.splits)
qed

lemma scatter_error: "for_each (scatter_body row col) xs s = Inl e \<Longrightarrow> e = UndefinedBehaviour"
proof (rule for_each_error_kind[where body = "scatter_body row col" and P = "\<lambda>e. e = UndefinedBehaviour"])
  fix x s e assume "scatter_body row col x s = Inl e"
  then show "e = UndefinedBehaviour"
    by (auto simp: scatter_body_def dest: load_error store_error split: sum.splits prod.splits)
qed

lemma compose_error: "for_each (compose_body m) xs s = Inl e \<Longrightarrow> e = UndefinedBehaviour"
proof (rule for_each_error_kind[where body = "compose_body m" and P = "\<lambda>e. e = UndefinedBehaviour"])
  fix x s e assume "compose_body m x s = Inl e"
  then show "e = UndefinedBehaviour"
    by (auto simp: compose_body_def dest: load_error store_error split: sum.splits)
qed

lemma sort_columns_error: "triplet_sort_columns srt ret m = Inl e \<Longrightarrow> e = UndefinedBehaviour"
  unfolding triplet_sort_columns_def
  by (auto dest: transpose_error compose_error split: if_splits sum.splits prod.splits)

lemma remove_duplicates_error:
  "triplet_remove_duplicates srt ret m = Inl e \<Longrightarrow> e = UndefinedBehaviour \<or> e = TripletNotSequential"
  unfolding triplet_remove_duplicates_def
  by (auto dest: removeDuplicates_error split: if_splits sum.splits prod.splits)

lemma count_loop_cases:
  assumes "int (length rc) = nrow + 1"
  shows "(case find (\<lambda>r. r < - 1 \<or> nrow \<le> r) xs of
            None \<Rightarrow> \<exists>rc'. for_each (triplet_count_body nrow) xs rc = Inr rc'
          | Some r \<Rightarrow> for_each (triplet_count_body nrow) xs rc =
                        Inl (if nrow \<le> r then TripletRowBounds else UndefinedBehaviour))"
proof (cases "find (\<lambda>r. r < - 1 \<or> nrow \<le> r) xs")
  case None
  then have "\<forall>r \<in> set xs. - 1 \<le> r \<and> r < nrow" by (auto simp: find_None_iff)
  then show ?thesis using count_loop_ok[OF assms, of xs] None by auto
next
  case (Some r)
  then show ?thesis using count_loop_err[OF assms Some] by simp
qed

lemma sp_triplet_row_bounds_iff:
  "sp_triplet_mapping nrow ncol row col mapping0 srt = Inl TripletRowBounds \<longleftrightarrow>
     length row = length col \<and> - 1 \<le> nrow \<and>
     (\<exists>r. find (\<lambda>r. r < - 1 \<or> nrow \<le> r) row = Some r \<and> nrow \<le> r)"
proof (cases "length row = length col \<and> - 1 \<le> nrow")
  case False
  then show ?thesis by (auto simp: sp_triplet_mapping_def vector_def)
next
  case True
  let ?rc0 = "replicate (nat (nrow + 1)) (0::int)"
  have v: "vector (nrow + 1) 0 = Inr ?rc0" using True by (simp add: vector_def)
  have l: "int (length ?rc0) = nrow + 1" using True by simp
  show ?thesis
  proof (cases "find (\<lambda>r. r < - 1 \<or> nrow \<le> r) row")
    case (Some r)
    then have "for_each (triplet_count_body nrow) row ?rc0 =
                 Inl (if nrow \<le> r then TripletRowBounds else UndefinedBehaviour)"
      using count_loop_cases[OF l, of row] by simp
    then show ?thesis using True Some by (simp add: sp_triplet_mapping_def v)
  next
    case None
    then obtain rc1 where rc1: "for_each (triplet_count_body nrow) row ?rc0 = Inr rc1"
      using count_loop_cases[OF l, of row] by auto
    have "sp_triplet_mapping nrow ncol row col mapping0 srt \<noteq> Inl TripletRowBounds"
    proof
      assume a: "sp_triplet_mapping nrow ncol row col mapping0 srt = Inl TripletRowBounds"
      then show False using True
        by (auto simp: sp_triplet_mapping_def v rc1
              dest: cumsum_error scatter_error sort_columns_error remove_duplicates_error
              split: sum.splits prod.splits)
    qed
    then show ?thesis using None by simp
  qed
qed

lemma sp_triplet_lengths_iff:
  "sp_triplet_mapping nrow ncol row col mapping0 srt = Inl TripletLengths \<longleftrightarrow> length row \<noteq> length col"
proof (cases "length row = length col")
  case False
  then show ?thesis by (simp add: sp_triplet_mapping_def)
next
  case True
  have "sp_triplet_mapping nrow ncol row col mapping0 srt \<noteq> Inl TripletLengths"
  proof
    assume a: "sp_triplet_mapping nrow ncol row col mapping0 srt = Inl TripletLengths"
    have cnt: "\<And>rc e. for_each (triplet_count_body nrow) row rc = Inl e \<Longrightarrow> e \<noteq> TripletLengths"
    proof -
      fix rc e assume "for_each (triplet_count_body nrow) row rc = Inl e"
      then show "e \<noteq> TripletLengths"
      proof (rule for_each_error_kind[where body = "triplet_count_body nrow" and P = "\<lambda>e. e \<noteq> TripletLengths", rotated])
        fix x s e assume "triplet_count_body nrow x s = Inl e"
        then show "e \<noteq> TripletLengths"
          by (auto simp: triplet_count_body_def dest: load_error store_error split: if_splits sum.splits)
      qed
    qed
    show False using a True
      unfolding sp_triplet_mapping_def
      by (auto dest: vector_error cnt cumsum_error scatter_error sort_columns_error remove_duplicates_error
            split: sum.splits prod.splits)
  qed
  then show ?thesis using True by simp
qed

lemma mset_scattered:
  assumes "0 \<le> nrow" "\<forall>r \<in> set row. 0 \<le> r \<and> r < nrow"
  shows "mset (scattered nrow row) = mset (upto_n (int (length row)))"
  unfolding scattered_def
  by (rule mset_bucket_sort_all) (use assms in \<open>auto simp: upto_n_def\<close>)

lemma mset_map_scattered:
  assumes "0 \<le> nrow" "\<forall>r \<in> set row. 0 \<le> r \<and> r < nrow" "length v = length row"
  shows "mset (map (\<lambda>k. v ! nat k) (scattered nrow row)) = mset v"
proof -
  have "mset (map (\<lambda>k. v ! nat k) (scattered nrow row)) = image_mset (\<lambda>k. v ! nat k) (mset (upto_n (int (length row))))"
    using mset_scattered[OF assms(1,2)] by (metis mset_map)
  also have "\<dots> = mset (map (\<lambda>k. v ! nat k) (upto_n (int (length row))))" by simp
  also have "map (\<lambda>k. v ! nat k) (upto_n (int (length row))) = v"
    using map_nth[of v] assms(3) by (simp add: upto_n_def comp_def)
  finally show ?thesis .
qed

text \<open>
  Claim C10.  \<open>sp_triplet\<close> raises its length error exactly when the two arrays differ in
  length, and its row-bounds error only when a row index is at least \<open>nrow\<close> (exactly: when
  the first row index outside \<open>[-1, nrow)\<close> is one): a negative row index passes the check
  \<open>*it < nrow\<close>.  The column indices are never examined: with the sorted hint, equal lengths
  and row indices in \<open>[0, nrow)\<close>, every column array is accepted and is returned, permuted,
  as the column indices of the pattern.
\<close>

theorem sp_triplet_validation:
  "(sp_triplet_mapping nrow ncol row col mapping0 srt = Inl TripletLengths \<longleftrightarrow>
      length row \<noteq> length col) \<and>
   (sp_triplet_mapping nrow ncol row col mapping0 srt = Inl TripletRowBounds \<longleftrightarrow>
      length row = length col \<and> - 1 \<le> nrow \<and>
      (\<exists>r. find (\<lambda>r. r < - 1 \<or> nrow \<le> r) row = Some r \<and> nrow \<le> r)) \<and>
   ((\<forall>r \<in> set row. r < nrow) \<longrightarrow>
      sp_triplet_mapping nrow ncol row col mapping0 srt \<noteq> Inl TripletRowBounds) \<and>
   (0 \<le> nrow \<and> length row = length col \<and> (\<forall>r \<in> set row. 0 \<le> r \<and> r < nrow) \<longrightarrow>
      (\<exists>ret mapping. sp_triplet_mapping nrow ncol row col mapping0 True = Inr (ret, mapping) \<and>
         mset (colRef ret) = mset col))"
proof (intro conjI impI)
  show "sp_triplet_mapping nrow ncol row col mapping0 srt = Inl TripletLengths \<longleftrightarrow>
      length row \<noteq> length col"
    by (rule sp_triplet_lengths_iff)
  show "sp_triplet_mapping nrow ncol row col mapping0 srt = Inl TripletRowBounds \<longleftrightarrow>
      length row = length col \<and> - 1 \<le> nrow \<and>
      (\<exists>r. find (\<lambda>r. r < - 1 \<or> nrow \<le> r) row = Some r \<and> nrow \<le> r)"
    by (rule sp_triplet_row_bounds_iff)
next
  assume a: "\<forall>r \<in> set row. r < nrow"
  have "\<not> (\<exists>r. find (\<lambda>r. r < - 1 \<or> nrow \<le> r) row = Some r \<and> nrow \<le> r)"
  proof
    assume "\<exists>r. find (\<lambda>r. r < - 1 \<or> nrow \<le> r) row = Some r \<and> nrow \<le> r"
    then obtain r where "find (\<lambda>r. r < - 1 \<or> nrow \<le> r) row = Some r" "nrow \<le> r" by blast
    then have "r \<in> set row" by (auto simp: find_Some_iff)
    then show False using a \<open>nrow \<le> r\<close> by fastforce
  qed
  then show "sp_triplet_mapping nrow ncol row col mapping0 srt \<noteq> Inl TripletRowBounds"
    by (simp add: sp_triplet_row_bounds_iff)
next
  assume a: "0 \<le> nrow \<and> length row = length col \<and> (\<forall>r \<in> set row. 0 \<le> r \<and> r < nrow)"
  then have h: "0 \<le> nrow" "length row = length col" "\<forall>r \<in> set row. 0 \<le> r \<and> r < nrow" by auto
  have "mset (map (\<lambda>k. col ! nat k) (scattered nrow row)) = mset col"
    using h(2) by (intro mset_map_scattered[OF h(1,3)]) simp
  then show "\<exists>ret mapping. sp_triplet_mapping nrow ncol row col mapping0 True = Inr (ret, mapping) \<and>
         mset (colRef ret) = mset col"
    unfolding sp_triplet_hint_true[OF h] by (simp add: CRSSparsity_new_def)
qed

theorem sp_triplet_validation_witness:
  "sp_triplet_mapping 1 1 [0] [] [] False = Inl TripletLengths \<and>
   sp_triplet_mapping 1 1 [1] [0] [] False = Inl TripletRowBounds \<and>
   sp_triplet_mapping 1 1 [- 1] [0] [] False \<noteq> Inl TripletRowBounds \<and>
   sp_triplet_mapping 1 1 [- 1] [0] [] False \<noteq> Inl TripletLengths \<and>
   (\<exists>ret mapping. sp_triplet_mapping 1 1 [0, 0] [5, - 3] [] True = Inr (ret, mapping) \<and>
      mset (colRef ret) = mset [5, - 3]) \<and>
   sp_triplet_mapping 1 1 [0, 0] [5, - 3] [] True =
     Inr (\<lparr>size1 = 1, size2 = 1, colRef = [5, - 3], rowindRef = [0, 2]\<rparr>, [0, 1])"
proof -
  have 1: "sp_triplet_mapping 1 1 [0] [] [] False = Inl TripletLengths"
    using sp_triplet_validation[of 1 1 "[0]" "[]" "[]" False] by simp
  have 2: "sp_triplet_mapping 1 1 [1] [0] [] False = Inl TripletRowBounds"
    using sp_triplet_validation[of 1 1 "[1]" "[0]" "[]" False] by simp
  have 3: "sp_triplet_mapping 1 1 [- 1] [0] [] False \<noteq> Inl TripletRowBounds"
    "sp_triplet_mapping 1 1 [- 1] [0] [] False \<noteq> Inl TripletLengths"
    using sp_triplet_validation[of 1 1 "[- 1]" "[0]" "[]" False] by simp_all
  have 4: "\<exists>ret mapping. sp_triplet_mapping 1 1 [0, 0] [5, - 3] [] True = Inr (ret, mapping) \<and>
      mset (colRef ret) = mset [5, - 3]"
    using sp_triplet_validation[of 1 1 "[0, 0]" "[5, - 3]" "[]" True] by simp
  have 5: "sp_triplet_mapping 1 1 [0, 0] [5, - 3] [] True =
     Inr (\<lparr>size1 = 1, size2 = 1, colRef = [5, - 3], rowindRef = [0, 2]\<rparr>, [0, 1])"
    by code_simp
  show ?thesis using 1 2 3 4 5 by blast
qed

section \<open>Sorting the columns and coalescing duplicates\<close>

lemma tracked_rows_in_range:
  assumes "tracked nrow ncol row col ret M" "\<forall>r \<in> set row. 0 \<le> r \<and> r < nrow"
  shows "\<forall>r \<in> set (map (\<lambda>k. row ! nat k) M). 0 \<le> r \<and> r < nrow"
proof
  fix r assume "r \<in> set (map (\<lambda>k. row ! nat k) M)"
  then obtain k where k: "k \<in> set M" "r = row ! nat k" by auto
  then have "nat k < length row" using assms(1) by (auto simp: tracked_def)
  then show "0 \<le> r \<and> r < nrow" using assms(2) k(2) by simp
qed

lemma tracked_getRow:
  assumes "tracked nrow ncol row col ret M" "0 \<le> nrow" "\<forall>r \<in> set row. 0 \<le> r \<and> r < nrow"
  shows "getRow ret = Inr (map (\<lambda>k. row ! nat k) M)" "colRef ret = map (\<lambda>k. col ! nat k) M"
    "size1 ret = nrow" "size2 ret = ncol" "sp_size ret = int (length M)"
proof -
  have ret: "ret = CRSSparsity_new nrow ncol (map (\<lambda>k. col ! nat k) M) (offsets (map (\<lambda>k. row ! nat k) M) nrow)"
    and srt: "sorted (map (\<lambda>k. row ! nat k) M)"
    using assms(1) by (auto simp: tracked_def)
  show "getRow ret = Inr (map (\<lambda>k. row ! nat k) M)"
    unfolding ret using getRow_offsets[OF assms(2) srt tracked_rows_in_range[OF assms(1,3)]] .
  show "colRef ret = map (\<lambda>k. col ! nat k) M" "size1 ret = nrow" "size2 ret = ncol"
    "sp_size ret = int (length M)"
    unfolding ret by (simp_all add: CRSSparsity_new_def sp_size_def)
qed

lemma tracked_invariant:
  assumes "tracked nrow ncol row col ret M" "0 \<le> nrow" "\<forall>r \<in> set row. 0 \<le> r \<and> r < nrow"
    and "length row = length col" "\<forall>c \<in> set col. 0 \<le> c \<and> c < ncol"
  shows "invariant ret"
proof -
  have ret: "ret = CRSSparsity_new nrow ncol (map (\<lambda>k. col ! nat k) M) (offsets (map (\<lambda>k. row ! nat k) M) nrow)"
    using assms(1) by (auto simp: tracked_def)
  have "\<forall>c \<in> set (map (\<lambda>k. col ! nat k) M). 0 \<le> c \<and> c < ncol"
  proof
    fix c assume "c \<in> set (map (\<lambda>k. col ! nat k) M)"
    then obtain k where k: "k \<in> set M" "c = col ! nat k" by auto
    then have "nat k < length col" using assms(1,4) by (auto simp: tracked_def)
    then show "0 \<le> c \<and> c < ncol" using assms(5) k(2) by simp
  qed
  then show ?thesis unfolding ret
    by (intro invariant_offsets[OF assms(2) tracked_rows_in_range[OF assms(1,3)]]) simp_all
qed

lemma tracked_scattered:
  assumes "0 \<le> nrow" "\<forall>r \<in> set row. 0 \<le> r \<and> r < nrow"
  shows "tracked nrow ncol row col
           (CRSSparsity_new nrow ncol (map (\<lambda>k. col ! nat k) (scattered nrow row)) (offsets row nrow))
           (scattered nrow row)"
proof -
  have "mset (map (\<lambda>k. row ! nat k) (scattered nrow row)) = mset row"
    using mset_map_scattered[OF assms, of row] by simp
  then have "offsets (map (\<lambda>k. row ! nat k) (scattered nrow row)) nrow = offsets row nrow"
    by (rule offsets_mset)
  moreover have "sorted (map (\<lambda>k. row ! nat k) (scattered nrow row))"
    unfolding scattered_def by (rule sorted_bucket_sort)
  moreover have "\<forall>k \<in> set (scattered nrow row). 0 \<le> k \<and> k < int (length row)"
  proof -
    have "set (scattered nrow row) = set (upto_n (int (length row)))"
      using mset_scattered[OF assms] by (rule mset_eq_setD)
    then show ?thesis by (auto simp: upto_n_def)
  qed
  ultimately show ?thesis by (simp add: tracked_def)
qed

lemma compose_loop:
  assumes "\<forall>x \<in> set v. 0 \<le> x \<and> x < int (length mapping)"
  shows "for_each (compose_body mapping) (upto_n (int (length v))) v = Inr (map (\<lambda>x. mapping ! nat x) v)"
proof -
  let ?f = "\<lambda>x. mapping ! nat x"
  let ?I = "\<lambda>i w. w = map ?f (take i v) @ drop i v"
  have "\<exists>s'. for_each (compose_body mapping) (map int [0..<length v]) v = Inr s' \<and> ?I (length v) s'"
  proof (rule for_each_upto_invariant[where P = ?I])
    show "?I 0 v" by simp
  next
    fix i w assume i: "i < length v" and w: "?I i w"
    have len: "length w = length v" using w by simp
    have wi: "w ! i = v ! i" using w i by (simp add: nth_append)
    have vi: "0 \<le> v ! i" "v ! i < int (length mapping)" using assms i by auto
    have b: "compose_body mapping (int i) w = Inr (w[i := ?f (v ! i)])"
      using i len wi vi by (simp add: compose_body_def load_nth store_nth load_def)
    have "w[i := ?f (v ! i)] = map ?f (take (Suc i) v) @ drop (Suc i) v"
      using w i by (simp add: take_Suc_conv_app_nth list_update_append Cons_nth_drop_Suc[symmetric])
    then show "\<exists>s'. compose_body mapping (int i) w = Inr s' \<and> ?I (Suc i) s'" using b by simp
  qed
  then show ?thesis by (simp add: upto_n_def)
qed

lemma sorted_wrt_bucket_sort:
  assumes "sorted (map g xs)"
  shows "sorted_wrt (\<lambda>x y. f x = f y \<longrightarrow> (g x :: int) \<le> g y) (bucket_sort nb f xs)"
proof (induction nb)
  case 0
  then show ?case by (simp add: bucket_sort_def)
next
  case (Suc nb)
  have lo: "\<forall>x \<in> set (bucket_sort nb f xs). f x < int nb"
    unfolding bucket_sort_def by auto
  have "sorted_wrt (\<lambda>x y. g x \<le> g y) (filter (\<lambda>x. f x = int nb) xs)"
    using assms by (simp add: sorted_map sorted_wrt_filter)
  then have hi: "sorted_wrt (\<lambda>x y. f x = f y \<longrightarrow> g x \<le> g y) (filter (\<lambda>x. f x = int nb) xs)"
    by (rule sorted_wrt_mono_rel[rotated]) simp
  show ?case
    unfolding bucket_sort_Suc sorted_wrt_append using Suc hi lo by fastforce
qed

lemma bucket_sort_cong:
  "(\<And>x. x \<in> set xs \<Longrightarrow> f x = g x) \<Longrightarrow> bucket_sort nb f xs = bucket_sort nb g xs"
  unfolding bucket_sort_def
  by (intro arg_cong[where f = concat] map_cong refl filter_cong) simp

lemma map_bucket_sort_index:
  "map (\<lambda>p. xs ! nat p) (bucket_sort nb (\<lambda>p. key (xs ! nat p)) (upto_n (int (length xs)))) =
     bucket_sort nb key xs"
proof -
  have xs: "map (\<lambda>p. xs ! nat p) (upto_n (int (length xs))) = xs"
    using map_nth[of xs] by (simp add: upto_n_def comp_def)
  have "\<And>b. map (\<lambda>p. xs ! nat p) (filter (\<lambda>p. key (xs ! nat p) = int b) (upto_n (int (length xs)))) =
             filter (\<lambda>x. key x = int b) xs"
  proof -
    fix b
    have "filter (\<lambda>x. key x = int b) (map (\<lambda>p. xs ! nat p) (upto_n (int (length xs)))) =
          map (\<lambda>p. xs ! nat p) (filter ((\<lambda>x. key x = int b) \<circ> (\<lambda>p. xs ! nat p)) (upto_n (int (length xs))))"
      by (rule filter_map)
    then show "map (\<lambda>p. xs ! nat p) (filter (\<lambda>p. key (xs ! nat p) = int b) (upto_n (int (length xs)))) =
             filter (\<lambda>x. key x = int b) xs"
      unfolding xs by (simp add: comp_def)
  qed
  then show ?thesis by (simp add: bucket_sort_def map_concat comp_def)
qed

lemma set_bucket_sort_subset: "set (bucket_sort nb f xs) \<subseteq> set xs"
  by (auto simp: bucket_sort_def)

lemma transpose_tracked:
  assumes T: "tracked nrow ncol row col ret M" and n: "0 \<le> nrow" "0 \<le> ncol"
    and len: "length row = length col"
    and rr: "\<forall>r \<in> set row. 0 \<le> r \<and> r < nrow" and cr: "\<forall>c \<in> set col. 0 \<le> c \<and> c < ncol"
  shows "\<exists>ret' tm. transpose ret = Inr (ret', tm) \<and>
           for_each (compose_body M) (upto_n (int (length tm))) tm =
             Inr (bucket_sort (nat ncol) (\<lambda>k. col ! nat k) M) \<and>
           tracked ncol nrow col row ret' (bucket_sort (nat ncol) (\<lambda>k. col ! nat k) M)"
proof -
  let ?R = "map (\<lambda>k. row ! nat k) M" and ?C = "map (\<lambda>k. col ! nat k) M"
  let ?n = "int (length M)"
  let ?tm = "bucket_sort (nat ncol) (\<lambda>p. ?C ! nat p) (upto_n ?n)"
  let ?M' = "bucket_sort (nat ncol) (\<lambda>k. col ! nat k) M"
  have g: "getRow ret = Inr ?R" "colRef ret = ?C" "size1 ret = nrow" "size2 ret = ncol"
    "sp_size ret = ?n"
    using tracked_getRow[OF T n(1) rr] by auto
  have Mr: "\<forall>k \<in> set M. 0 \<le> k \<and> k < int (length row)" using T by (simp add: tracked_def)
  have Cr: "\<forall>c \<in> set ?C. 0 \<le> c \<and> c < ncol"
  proof
    fix c assume "c \<in> set ?C"
    then obtain k where k: "k \<in> set M" "c = col ! nat k" by auto
    then have "nat k < length col" using Mr len by auto
    then show "0 \<le> c \<and> c < ncol" using cr k(2) by simp
  qed
  then have nex: "\<not> list_ex (\<lambda>c. c < 0 \<or> ncol \<le> c) ?C"
    by (auto simp: list_ex_iff)
  let ?ret' = "CRSSparsity_new ncol nrow (map (\<lambda>p. ?R ! nat p) ?tm) (offsets ?C ncol)"
  have tr: "transpose ret = Inr (?ret', ?tm)"
    unfolding transpose_def g sum.case using nex by (simp add: Let_def)
  have tm_rng: "\<forall>x \<in> set ?tm. 0 \<le> x \<and> x < int (length M)"
    using set_bucket_sort_subset[of "nat ncol" "\<lambda>p. ?C ! nat p" "upto_n ?n"] by (auto simp: upto_n_def)
  have key: "?tm = bucket_sort (nat ncol) (\<lambda>p. col ! nat (M ! nat p)) (upto_n ?n)"
    by (rule bucket_sort_cong) (auto simp: upto_n_def)
  have M': "map (\<lambda>p. M ! nat p) ?tm = ?M'"
    unfolding key by (rule map_bucket_sort_index[where key = "\<lambda>k. col ! nat k"])
  have comp: "for_each (compose_body M) (upto_n (int (length ?tm))) ?tm = Inr ?M'"
    using compose_loop[OF tm_rng] M' by simp
  have R': "map (\<lambda>p. ?R ! nat p) ?tm = map (\<lambda>k. row ! nat k) ?M'"
  proof -
    have "map (\<lambda>p. ?R ! nat p) ?tm = map (\<lambda>p. row ! nat (M ! nat p)) ?tm"
      by (rule map_cong[OF refl]) (use tm_rng in auto)
    also have "\<dots> = map (\<lambda>k. row ! nat k) (map (\<lambda>p. M ! nat p) ?tm)" by (simp add: comp_def)
    finally show ?thesis unfolding M' .
  qed
  have Ck: "\<forall>x \<in> set M. 0 \<le> col ! nat x \<and> col ! nat x < int (nat ncol)"
    using Cr n(2) by auto
  have ms: "mset ?M' = mset M" by (rule mset_bucket_sort_all[OF Ck])
  then have "mset (map (\<lambda>k. col ! nat k) ?M') = mset ?C" by (metis mset_map)
  then have off: "offsets ?C ncol = offsets (map (\<lambda>k. col ! nat k) ?M') ncol"
    by (intro offsets_mset) simp
  have "set ?M' = set M" using ms by (rule mset_eq_setD)
  then have M'r: "\<forall>k \<in> set ?M'. 0 \<le> k \<and> k < int (length col)" using Mr len by simp
  have "tracked ncol nrow col row ?ret' ?M'"
    unfolding tracked_def R' off using M'r sorted_bucket_sort[of "\<lambda>k. col ! nat k" "nat ncol" M]
    by simp
  then show ?thesis using tr comp by blast
qed

lemma zip_map_same3: "zip (map f xs) (map g xs) = map (\<lambda>x. (f x, g x)) xs"
  by (induction xs) auto

lemma tracked_columnsSequential:
  assumes "tracked nrow ncol row col ret M" "0 \<le> nrow" "\<forall>r \<in> set row. 0 \<le> r \<and> r < nrow"
  shows "columnsSequential ret strictly \<longleftrightarrow>
           sorted_wrt (\<lambda>x y. row ! nat x = row ! nat y \<longrightarrow>
              (if strictly then col ! nat x < col ! nat y else col ! nat x \<le> col ! nat y)) M"
  unfolding columnsSequential_def tracked_getRow(1,2)[OF assms] sum.case zip_map_same3 sorted_wrt_map
  by simp

lemma sort_columns_tracked:
  assumes T: "tracked nrow ncol row col ret M" and n: "0 \<le> nrow" "0 \<le> ncol"
    and len: "length row = length col"
    and rr: "\<forall>r \<in> set row. 0 \<le> r \<and> r < nrow" and cr: "\<forall>c \<in> set col. 0 \<le> c \<and> c < ncol"
  shows "\<exists>ret' M'. triplet_sort_columns False ret M = Inr (ret', M') \<and>
           tracked nrow ncol row col ret' M' \<and> columnsSequential ret' False \<and> mset M' = mset M"
proof (cases "columnsSequential ret False")
  case True
  then show ?thesis using T by (simp add: triplet_sort_columns_def)
next
  case False
  let ?M1 = "bucket_sort (nat ncol) (\<lambda>k. col ! nat k) M"
  let ?M2 = "bucket_sort (nat nrow) (\<lambda>k. row ! nat k) ?M1"
  obtain ret1 tm1 where t1: "transpose ret = Inr (ret1, tm1)"
    "for_each (compose_body M) (upto_n (int (length tm1))) tm1 = Inr ?M1"
    "tracked ncol nrow col row ret1 ?M1"
    using transpose_tracked[OF T n len rr cr] by blast
  obtain ret2 tm2 where t2: "transpose ret1 = Inr (ret2, tm2)"
    "for_each (compose_body ?M1) (upto_n (int (length tm2))) tm2 = Inr ?M2"
    "tracked nrow ncol row col ret2 ?M2"
    using transpose_tracked[OF t1(3) n(2,1) len[symmetric] cr rr] by blast
  have run: "triplet_sort_columns False ret M = Inr (ret2, ?M2)"
    using False t1(1,2) t2(1,2) by (simp add: triplet_sort_columns_def)
  have Mr: "\<forall>k \<in> set M. 0 \<le> k \<and> k < int (length row)" using T by (simp add: tracked_def)
  have k1: "\<forall>x \<in> set M. 0 \<le> col ! nat x \<and> col ! nat x < int (nat ncol)"
  proof
    fix x assume "x \<in> set M"
    then have "nat x < length col" using Mr len by auto
    then show "0 \<le> col ! nat x \<and> col ! nat x < int (nat ncol)" using cr n(2) by simp
  qed
  have m1: "mset ?M1 = mset M" by (rule mset_bucket_sort_all[OF k1])
  have "set ?M1 = set M" using m1 by (rule mset_eq_setD)
  then have k2: "\<forall>x \<in> set ?M1. 0 \<le> row ! nat x \<and> row ! nat x < int (nat nrow)"
    using Mr rr n(1) by auto
  have m2: "mset ?M2 = mset M" using mset_bucket_sort_all[OF k2] m1 by simp
  have "sorted (map (\<lambda>k. col ! nat k) ?M1)" by (rule sorted_bucket_sort)
  then have "sorted_wrt (\<lambda>x y. row ! nat x = row ! nat y \<longrightarrow> col ! nat x \<le> col ! nat y) ?M2"
    by (rule sorted_wrt_bucket_sort)
  then have "columnsSequential ret2 False"
    using tracked_columnsSequential[OF t2(3) n(1) rr, of False] by simp
  then show ?thesis using run t2(3) m2 by blast
qed

lemma coalesce_keys:
  "map (\<lambda>t. (fst t, fst (snd t))) (coalesce zs) = remdups_adj (map (\<lambda>t. (fst t, fst (snd t))) zs)"
  by (induction zs rule: coalesce.induct) auto

lemma set_coalesce: "set (coalesce zs) \<subseteq> set zs"
  by (induction zs rule: coalesce.induct) auto

lemma sorted_distinct_adj:
  fixes xs :: "('a::linorder) list"
  shows "sorted xs \<Longrightarrow> distinct_adj xs \<Longrightarrow> sorted_wrt (<) xs"
proof (induction xs)
  case Nil
  then show ?case by simp
next
  case (Cons x xs)
  show ?case
  proof (cases xs)
    case Nil
    then show ?thesis by simp
  next
    case (Cons y ys)
    have xy: "x < y" using Cons.prems Cons by (auto simp: distinct_adj_Cons)
    have "\<forall>z \<in> set xs. y \<le> z" using Cons.prems(1) Cons by auto
    then have "\<forall>z \<in> set xs. x < z" using xy by fastforce
    moreover have "sorted_wrt (<) xs"
      using Cons.IH Cons.prems Cons by (auto simp: distinct_adj_Cons)
    ultimately show ?thesis by simp
  qed
qed

lemma lex_sorted_pairs:
  assumes "sorted (map (\<lambda>k. row ! nat k) M)"
    and "sorted_wrt (\<lambda>x y. row ! nat x = row ! nat y \<longrightarrow> col ! nat x \<le> col ! nat y) M"
  shows "sorted (pairs_of row col M)"
proof -
  have "\<And>i j. i < j \<Longrightarrow> j < length M \<Longrightarrow>
          (row ! nat (M ! i), col ! nat (M ! i)) \<le> (row ! nat (M ! j), col ! nat (M ! j))"
  proof -
    fix i j assume ij: "i < j" "j < length M"
    have "row ! nat (M ! i) \<le> row ! nat (M ! j)"
      using assms(1) ij unfolding sorted_map sorted_wrt_iff_nth_less by auto
    moreover have "row ! nat (M ! i) = row ! nat (M ! j) \<longrightarrow> col ! nat (M ! i) \<le> col ! nat (M ! j)"
      using assms(2) ij unfolding sorted_wrt_iff_nth_less by auto
    ultimately show "(row ! nat (M ! i), col ! nat (M ! i)) \<le> (row ! nat (M ! j), col ! nat (M ! j))"
      by (auto simp: less_eq_prod_def)
  qed
  then have "sorted_wrt (\<lambda>x y. (row ! nat x, col ! nat x) \<le> (row ! nat y, col ! nat y)) M"
    unfolding sorted_wrt_iff_nth_less by blast
  then show ?thesis by (simp add: pairs_of_def sorted_map)
qed

lemma lex_strict_pairs:
  assumes "sorted (map (\<lambda>k. row ! nat k) M)"
    and "sorted_wrt (\<lambda>x y. row ! nat x = row ! nat y \<longrightarrow> col ! nat x < col ! nat y) M"
  shows "sorted_wrt (<) (pairs_of row col M)"
proof -
  have "\<And>i j. i < j \<Longrightarrow> j < length M \<Longrightarrow>
          (row ! nat (M ! i), col ! nat (M ! i)) < (row ! nat (M ! j), col ! nat (M ! j))"
  proof -
    fix i j assume ij: "i < j" "j < length M"
    have "row ! nat (M ! i) \<le> row ! nat (M ! j)"
      using assms(1) ij unfolding sorted_map sorted_wrt_iff_nth_less by auto
    moreover have "row ! nat (M ! i) = row ! nat (M ! j) \<longrightarrow> col ! nat (M ! i) < col ! nat (M ! j)"
      using assms(2) ij unfolding sorted_wrt_iff_nth_less by auto
    ultimately show "(row ! nat (M ! i), col ! nat (M ! i)) < (row ! nat (M ! j), col ! nat (M ! j))"
      by (auto simp: less_prod_def)
  qed
  then have "sorted_wrt (\<lambda>x y. (row ! nat x, col ! nat x) < (row ! nat y, col ! nat y)) M"
    unfolding sorted_wrt_iff_nth_less by blast
  then show ?thesis by (simp add: pairs_of_def sorted_wrt_map)
qed

lemma strict_pairs_sequential:
  assumes "sorted_wrt (<) (pairs_of row col M)"
  shows "sorted (map (\<lambda>k. row ! nat k) M)"
    "sorted_wrt (\<lambda>x y. row ! nat x = row ! nat y \<longrightarrow> col ! nat x < col ! nat y) M"
proof -
  have s: "sorted_wrt (\<lambda>x y. (row ! nat x, col ! nat x) < (row ! nat y, col ! nat y)) M"
    using assms by (simp add: pairs_of_def sorted_wrt_map)
  have "sorted_wrt (\<lambda>x y. row ! nat x \<le> row ! nat y) M"
    by (rule sorted_wrt_mono_rel[OF _ s]) (auto simp: less_prod_def)
  then show "sorted (map (\<lambda>k. row ! nat k) M)" by (simp add: sorted_map)
  show "sorted_wrt (\<lambda>x y. row ! nat x = row ! nat y \<longrightarrow> col ! nat x < col ! nat y) M"
    by (rule sorted_wrt_mono_rel[OF _ s]) (auto simp: less_prod_def)
qed

lemma remove_duplicates_tracked:
  assumes T: "tracked nrow ncol row col ret M" and n: "0 \<le> nrow"
    and rr: "\<forall>r \<in> set row. 0 \<le> r \<and> r < nrow"
    and seq: "columnsSequential ret False"
  shows "\<exists>ret' M'. removeDuplicates ret M = Inr (ret', M') \<and>
           tracked nrow ncol row col ret' M' \<and> columnsSequential ret' True \<and>
           pairs_of row col M' = remdups_adj (pairs_of row col M) \<and> set M' \<subseteq> set M"
proof -
  let ?R = "map (\<lambda>k. row ! nat k) M" and ?C = "map (\<lambda>k. col ! nat k) M"
  let ?tau = "\<lambda>k. (row ! nat k, col ! nat k, k)"
  let ?kept = "coalesce (map ?tau M)"
  let ?M' = "map (\<lambda>t. snd (snd t)) ?kept"
  have g: "getRow ret = Inr ?R" "colRef ret = ?C" "size1 ret = nrow" "size2 ret = ncol"
    using tracked_getRow[OF T n rr] by auto
  have z: "zip ?R (zip ?C M) = map ?tau M" by (induction M) auto
  let ?ret' = "CRSSparsity_new nrow ncol (map (\<lambda>t. fst (snd t)) ?kept) (offsets (map fst ?kept) nrow)"
  have run: "removeDuplicates ret M = Inr (?ret', ?M')"
    unfolding removeDuplicates_def g sum.case by (simp add: Let_def z)
  have el: "\<And>t. t \<in> set ?kept \<Longrightarrow>
      fst t = row ! nat (snd (snd t)) \<and> fst (snd t) = col ! nat (snd (snd t))"
  proof -
    fix t assume "t \<in> set ?kept"
    then have "t \<in> set (map ?tau M)" using set_coalesce[of "map ?tau M"] by blast
    then obtain k where "t = ?tau k" by auto
    then show "fst t = row ! nat (snd (snd t)) \<and> fst (snd t) = col ! nat (snd (snd t))" by simp
  qed
  have c': "map (\<lambda>t. fst (snd t)) ?kept = map (\<lambda>k. col ! nat k) ?M'"
    unfolding map_map comp_def by (rule map_cong[OF refl]) (simp add: el)
  have r': "map fst ?kept = map (\<lambda>k. row ! nat k) ?M'"
    unfolding map_map comp_def by (rule map_cong[OF refl]) (simp add: el)
  have sub: "set ?M' \<subseteq> set M"
  proof
    fix k assume "k \<in> set ?M'"
    then obtain t where t: "t \<in> set ?kept" "k = snd (snd t)" by auto
    then have "t \<in> set (map ?tau M)" using set_coalesce[of "map ?tau M"] by blast
    then show "k \<in> set M" using t(2) by auto
  qed
  have p': "pairs_of row col ?M' = remdups_adj (pairs_of row col M)"
  proof -
    have "pairs_of row col ?M' = map (\<lambda>t. (fst t, fst (snd t))) ?kept"
      unfolding pairs_of_def map_map comp_def
      by (rule map_cong[OF refl]) (simp add: el)
    also have "\<dots> = remdups_adj (map (\<lambda>t. (fst t, fst (snd t))) (map ?tau M))"
      by (rule coalesce_keys)
    finally show ?thesis by (simp add: pairs_of_def comp_def)
  qed
  have srt: "sorted ?R" using T by (simp add: tracked_def)
  have "sorted_wrt (\<lambda>x y. row ! nat x = row ! nat y \<longrightarrow> col ! nat x \<le> col ! nat y) M"
    using seq tracked_columnsSequential[OF T n rr, of False] by simp
  then have "sorted (pairs_of row col M)" using lex_sorted_pairs[OF srt] by blast
  then have "sorted (pairs_of row col ?M')" unfolding p' by simp
  moreover have "distinct_adj (pairs_of row col ?M')" unfolding p' by simp
  ultimately have strict: "sorted_wrt (<) (pairs_of row col ?M')" by (rule sorted_distinct_adj)
  have T': "tracked nrow ncol row col ?ret' ?M'"
    unfolding tracked_def c' r' using strict_pairs_sequential(1)[OF strict] sub T
    by (auto simp: tracked_def)
  have "columnsSequential ?ret' True"
    using tracked_columnsSequential[OF T' n rr, of True] strict_pairs_sequential(2)[OF strict] by simp
  then show ?thesis using run T' p' sub by blast
qed

lemma pairs_of_upto_n:
  assumes "length row = length col"
  shows "pairs_of row col (upto_n (int (length row))) = zip row col"
proof (rule nth_equalityI)
  show "length (pairs_of row col (upto_n (int (length row)))) = length (zip row col)"
    using assms by (simp add: pairs_of_def upto_n_def)
next
  fix i assume "i < length (pairs_of row col (upto_n (int (length row))))"
  then have "i < length row" by (simp add: pairs_of_def upto_n_def)
  then show "pairs_of row col (upto_n (int (length row))) ! i = zip row col ! i"
    using assms by (simp add: pairs_of_def upto_n_def)
qed

lemma pairs_of_mset:
  "mset M = mset M' \<Longrightarrow> mset (pairs_of row col M) = mset (pairs_of row col M')"
  unfolding pairs_of_def by (metis mset_map)

lemma tracked_pairs:
  assumes "tracked nrow ncol row col ret M" "0 \<le> nrow" "\<forall>r \<in> set row. 0 \<le> r \<and> r < nrow"
  shows "\<exists>R. getRow ret = Inr R \<and> zip R (colRef ret) = pairs_of row col M"
  using tracked_getRow(1,2)[OF assms] by (simp add: zip_map_same3 pairs_of_def)

lemma sp_triplet_hint_false:
  assumes n: "0 \<le> nrow" "0 \<le> ncol" and len: "length row = length col"
    and rr: "\<forall>r \<in> set row. 0 \<le> r \<and> r < nrow" and cr: "\<forall>c \<in> set col. 0 \<le> c \<and> c < ncol"
  shows "\<exists>ret M. sp_triplet_mapping nrow ncol row col mapping0 False = Inr (ret, M) \<and>
           tracked nrow ncol row col ret M \<and> columnsSequential ret True \<and>
           set (pairs_of row col M) = set (zip row col) \<and>
           sorted_wrt (<) (pairs_of row col M)"
proof -
  let ?M0 = "scattered nrow row"
  let ?ret0 = "CRSSparsity_new nrow ncol (map (\<lambda>k. col ! nat k) ?M0) (offsets row nrow)"
  have T0: "tracked nrow ncol row col ?ret0 ?M0" by (rule tracked_scattered[OF n(1) rr])
  obtain ret1 M1 where s1: "triplet_sort_columns False ?ret0 ?M0 = Inr (ret1, M1)"
    "tracked nrow ncol row col ret1 M1" "columnsSequential ret1 False" "mset M1 = mset ?M0"
    using sort_columns_tracked[OF T0 n len rr cr] by blast
  have "mset M1 = mset (upto_n (int (length row)))"
    using s1(4) mset_scattered[OF n(1) rr] by simp
  then have "mset (pairs_of row col M1) = mset (zip row col)"
    using pairs_of_mset[of M1 "upto_n (int (length row))" row col] pairs_of_upto_n[OF len] by simp
  then have set1: "set (pairs_of row col M1) = set (zip row col)" by (rule mset_eq_setD)
  have front: "sp_triplet_mapping nrow ncol row col mapping0 False = triplet_remove_duplicates False ret1 M1"
    unfolding sp_triplet_front[OF n(1) len rr] s1(1) by simp
  show ?thesis
  proof (cases "columnsSequential ret1 True")
    case True
    have "sorted (map (\<lambda>k. row ! nat k) M1)" using s1(2) by (simp add: tracked_def)
    moreover have "sorted_wrt (\<lambda>x y. row ! nat x = row ! nat y \<longrightarrow> col ! nat x < col ! nat y) M1"
      using True tracked_columnsSequential[OF s1(2) n(1) rr, of True] by simp
    ultimately have "sorted_wrt (<) (pairs_of row col M1)" by (rule lex_strict_pairs)
    moreover have "sp_triplet_mapping nrow ncol row col mapping0 False = Inr (ret1, M1)"
      unfolding front using True by (simp add: triplet_remove_duplicates_def)
    ultimately show ?thesis using s1(2) True set1 by blast
  next
    case False
    obtain ret2 M2 where s2: "removeDuplicates ret1 M1 = Inr (ret2, M2)"
      "tracked nrow ncol row col ret2 M2" "columnsSequential ret2 True"
      "pairs_of row col M2 = remdups_adj (pairs_of row col M1)"
      using remove_duplicates_tracked[OF s1(2) n(1) rr s1(3)] by blast
    have run: "sp_triplet_mapping nrow ncol row col mapping0 False = Inr (ret2, M2)"
      unfolding front using False s2(1,3) by (simp add: triplet_remove_duplicates_def)
    have "sorted (map (\<lambda>k. row ! nat k) M2)" using s2(2) by (simp add: tracked_def)
    moreover have "sorted_wrt (\<lambda>x y. row ! nat x = row ! nat y \<longrightarrow> col ! nat x < col ! nat y) M2"
      using s2(3) tracked_columnsSequential[OF s2(2) n(1) rr, of True] by simp
    ultimately have "sorted_wrt (<) (pairs_of row col M2)" by (rule lex_strict_pairs)
    moreover have "set (pairs_of row col M2) = set (zip row col)" unfolding s2(4) using set1 by simp
    ultimately show ?thesis using run s2(2,3) by blast
  qed
qed

section \<open>The nonzero count of \<open>sp_triplet\<close>\<close>

text \<open>
  Claim C2, as the code has it.  For equal-length arrays with row indices in \<open>[0, nrow)\<close>:
  with the sorted hint true nothing is coalesced, the pattern holds every input pair once
  per occurrence and its nonzero count is the length of the input; with the sorted hint
  false and column indices in \<open>[0, ncol)\<close> the pattern is sequential, its nonzeros are
  exactly the distinct (row, column) pairs of the input, each once, so the nonzero count is
  the number of distinct pairs, and every entry of the mapping is the index of an input
  that carries the pair of its slot.  \<open>sp_triplet(2, 2, [1,0,1], [0,1,0], false)\<close> has two
  nonzeros, row offsets \<open>[0,1,2]\<close> and column indices \<open>[1,0]\<close>.
\<close>

theorem sp_triplet_nnz:
  assumes "0 \<le> nrow" "length row = length col" "\<forall>r \<in> set row. 0 \<le> r \<and> r < nrow"
  shows "(\<exists>ret M R. sp_triplet_mapping nrow ncol row col mapping0 True = Inr (ret, M) \<and>
            getRow ret = Inr R \<and> sp_size ret = int (length row) \<and>
            mset (zip R (colRef ret)) = mset (zip row col)) \<and>
         (0 \<le> ncol \<and> (\<forall>c \<in> set col. 0 \<le> c \<and> c < ncol) \<longrightarrow>
            (\<exists>ret M R. sp_triplet_mapping nrow ncol row col mapping0 False = Inr (ret, M) \<and>
               getRow ret = Inr R \<and>
               sp_size ret = int (card (set (zip row col))) \<and>
               set (zip R (colRef ret)) = set (zip row col) \<and> distinct (zip R (colRef ret)) \<and>
               columnsSequential ret True \<and>
               length M = length (colRef ret) \<and>
               zip R (colRef ret) = map (\<lambda>k. (row ! nat k, col ! nat k)) M \<and>
               (\<forall>k \<in> set M. 0 \<le> k \<and> k < int (length row)))) \<and>
         sp_triplet 2 2 [1, 0, 1] [0, 1, 0] False =
           Inr \<lparr>size1 = 2, size2 = 2, colRef = [1, 0], rowindRef = [0, 1, 2]\<rparr> \<and>
         sp_triplet_mapping 2 2 [1, 0, 1] [0, 1, 0] [] False =
           Inr (\<lparr>size1 = 2, size2 = 2, colRef = [1, 0], rowindRef = [0, 1, 2]\<rparr>, [1, 0])"
proof (intro conjI impI)
  let ?M0 = "scattered nrow row"
  let ?ret0 = "CRSSparsity_new nrow ncol (map (\<lambda>k. col ! nat k) ?M0) (offsets row nrow)"
  have T0: "tracked nrow ncol row col ?ret0 ?M0" by (rule tracked_scattered[OF assms(1,3)])
  obtain R where R: "getRow ?ret0 = Inr R" "zip R (colRef ?ret0) = pairs_of row col ?M0"
    using tracked_pairs[OF T0 assms(1,3)] by blast
  have "mset (pairs_of row col ?M0) = mset (zip row col)"
    using pairs_of_mset[OF mset_scattered[OF assms(1,3)], of row col] pairs_of_upto_n[OF assms(2)]
    by simp
  moreover have "sp_size ?ret0 = int (length row)"
    using tracked_getRow(5)[OF T0 assms(1,3)] mset_scattered[OF assms(1,3)]
    by (metis length_map size_mset upto_n_def length_upt diff_zero nat_int)
  ultimately show "\<exists>ret M R. sp_triplet_mapping nrow ncol row col mapping0 True = Inr (ret, M) \<and>
            getRow ret = Inr R \<and> sp_size ret = int (length row) \<and>
            mset (zip R (colRef ret)) = mset (zip row col)"
    unfolding sp_triplet_hint_true[OF assms] using R by auto
next
  assume c: "0 \<le> ncol \<and> (\<forall>c \<in> set col. 0 \<le> c \<and> c < ncol)"
  obtain ret M where r: "sp_triplet_mapping nrow ncol row col mapping0 False = Inr (ret, M)"
    "tracked nrow ncol row col ret M" "columnsSequential ret True"
    "set (pairs_of row col M) = set (zip row col)" "sorted_wrt (<) (pairs_of row col M)"
    using sp_triplet_hint_false[OF assms(1) _ assms(2,3), of ncol mapping0] c by blast
  obtain R where R: "getRow ret = Inr R" "zip R (colRef ret) = pairs_of row col M"
    using tracked_pairs[OF r(2) assms(1,3)] by blast
  have d: "distinct (pairs_of row col M)" using r(5) by (simp add: strict_sorted_iff)
  have "length (pairs_of row col M) = card (set (zip row col))"
    using distinct_card[OF d] r(4) by simp
  then have sz: "sp_size ret = int (card (set (zip row col)))"
    using tracked_getRow(5)[OF r(2) assms(1,3)] by (simp add: pairs_of_def)
  have lm: "length M = length (colRef ret)"
    using tracked_getRow(2)[OF r(2) assms(1,3)] by simp
  have rng: "\<forall>k \<in> set M. 0 \<le> k \<and> k < int (length row)" using r(2) by (simp add: tracked_def)
  show "\<exists>ret M R. sp_triplet_mapping nrow ncol row col mapping0 False = Inr (ret, M) \<and>
               getRow ret = Inr R \<and>
               sp_size ret = int (card (set (zip row col))) \<and>
               set (zip R (colRef ret)) = set (zip row col) \<and> distinct (zip R (colRef ret)) \<and>
               columnsSequential ret True \<and>
               length M = length (colRef ret) \<and>
               zip R (colRef ret) = map (\<lambda>k. (row ! nat k, col ! nat k)) M \<and>
               (\<forall>k \<in> set M. 0 \<le> k \<and> k < int (length row))"
    apply (rule exI[of _ ret], rule exI[of _ M], rule exI[of _ R])
    using r(1,3,4) R d sz lm rng by (simp add: pairs_of_def)
next
  show "sp_triplet 2 2 [1, 0, 1] [0, 1, 0] False =
           Inr \<lparr>size1 = 2, size2 = 2, colRef = [1, 0], rowindRef = [0, 1, 2]\<rparr>"
    by code_simp
  show "sp_triplet_mapping 2 2 [1, 0, 1] [0, 1, 0] [] False =
           Inr (\<lparr>size1 = 2, size2 = 2, colRef = [1, 0], rowindRef = [0, 1, 2]\<rparr>, [1, 0])"
    by code_simp
qed

theorem sp_triplet_nnz_witness:
  "(\<exists>ret M. sp_triplet_mapping 3 3 [2, 0, 2, 1, 0, 2] [1, 2, 0, 1, 0, 1] [] False = Inr (ret, M) \<and>
       sp_size ret = int (card (set (zip [2, 0, 2, 1, 0, 2 :: int] [1, 2, 0, 1, 0, 1 :: int]))) \<and>
       columnsSequential ret True) \<and>
   (\<exists>ret M. sp_triplet_mapping 3 3 [2, 0, 2, 1, 0, 2] [1, 2, 0, 1, 0, 1] [] True = Inr (ret, M) \<and>
       sp_size ret = 6) \<and>
   sp_triplet_mapping 3 3 [2, 0, 2, 1, 0, 2] [1, 2, 0, 1, 0, 1] [] False =
     Inr (\<lparr>size1 = 3, size2 = 3, colRef = [0, 2, 1, 0, 1], rowindRef = [0, 2, 3, 5]\<rparr>,
          [4, 1, 3, 2, 0])"
proof -
  have h: "\<forall>r \<in> set [2, 0, 2, 1, 0, 2 :: int]. 0 \<le> r \<and> r < 3" by simp
  have c: "(0::int) \<le> 3 \<and> (\<forall>c \<in> set [1, 2, 0, 1, 0, 1 :: int]. 0 \<le> c \<and> c < 3)" by simp
  have p1: "(0::int) \<le> 3" by simp
  have p2: "length [2, 0, 2, 1, 0, 2 :: int] = length [1, 2, 0, 1, 0, 1 :: int]" by simp
  note t = sp_triplet_nnz[OF p1 p2 h, of 3 "[]"]
  have 1: "\<exists>ret M. sp_triplet_mapping 3 3 [2, 0, 2, 1, 0, 2] [1, 2, 0, 1, 0, 1] [] False = Inr (ret, M) \<and>
       sp_size ret = int (card (set (zip [2, 0, 2, 1, 0, 2 :: int] [1, 2, 0, 1, 0, 1 :: int]))) \<and>
       columnsSequential ret True"
    using t c by blast
  have l6: "int (length [2, 0, 2, 1, 0, 2 :: int]) = 6" by simp
  have 2: "\<exists>ret M. sp_triplet_mapping 3 3 [2, 0, 2, 1, 0, 2] [1, 2, 0, 1, 0, 1] [] True = Inr (ret, M) \<and>
       sp_size ret = 6"
    using t unfolding l6 by blast
  have 3: "sp_triplet_mapping 3 3 [2, 0, 2, 1, 0, 2] [1, 2, 0, 1, 0, 1] [] False =
     Inr (\<lparr>size1 = 3, size2 = 3, colRef = [0, 2, 1, 0, 1], rowindRef = [0, 2, 3, 5]\<rparr>,
          [4, 1, 3, 2, 0])"
    by code_simp
  show ?thesis using 1 2 3 by blast
qed

text \<open>
  With the sorted hint true the duplicate pair \<open>(0, 0)\<close> is kept twice: two nonzeros for
  one distinct pair.
\<close>

theorem sp_triplet_hint_keeps_duplicates:
  "sp_triplet 1 1 [0, 0] [0, 0] True =
     Inr \<lparr>size1 = 1, size2 = 1, colRef = [0, 0], rowindRef = [0, 2]\<rparr> \<and>
   sp_size \<lparr>size1 = 1, size2 = 1, colRef = [0, 0], rowindRef = [0, 2]\<rparr> = 2 \<and>
   card (set (zip [0, 0 :: int] [0, 0 :: int])) = 1"
  by code_simp

section \<open>The invariant of the basic constructors\<close>

lemma for_each_map: "for_each body (map g xs) s = for_each (\<lambda>x. body (g x)) xs s"
  by (induction xs arbitrary: s) (auto split: sum.splits)

lemma store_loop:
  assumes "n \<le> length v0"
  shows "for_each (\<lambda>i v. store v i (f i)) (map int [0..<n]) v0 = Inr (map (\<lambda>i. f (int i)) [0..<n] @ drop n v0)"
proof -
  let ?I = "\<lambda>i v. v = map (\<lambda>i. f (int i)) [0..<i] @ drop i v0"
  have "\<exists>s'. for_each (\<lambda>i v. store v i (f i)) (map int [0..<n]) v0 = Inr s' \<and> ?I n s'"
  proof (rule for_each_upto_invariant[where P = ?I])
    show "?I 0 v0" by simp
  next
    fix i v assume i: "i < n" and v: "?I i v"
    have il: "i < length v0" using i assms by simp
    then have len: "i < length v" using v by simp
    have "v[i := f (int i)] = map (\<lambda>i. f (int i)) [0..<Suc i] @ drop (Suc i) v0"
      using v il by (simp add: list_update_append Cons_nth_drop_Suc[symmetric])
    then show "\<exists>s'. store v (int i) (f (int i)) = Inr s' \<and> ?I (Suc i) s'"
      using len by (simp add: store_nth)
  qed
  then show ?thesis by auto
qed

lemma length_upto_n [simp]: "length (upto_n n) = nat n"
  by (simp add: upto_n_def)

lemma nth_upto_n: "i < nat n \<Longrightarrow> upto_n n ! i = int i"
  by (simp add: upto_n_def)

lemma set_upto_n: "x \<in> set (upto_n n) \<longleftrightarrow> 0 \<le> x \<and> x < n"
  by (auto simp: upto_n_def intro: image_eqI[where x = "nat x"])

lemma sorted_upto_n: "sorted (upto_n n)"
  by (simp add: upto_n_def sorted_map sorted_wrt_iff_nth_less)

lemma upto_n_Suc: "0 \<le> n \<Longrightarrow> upto_n (n + 1) = upto_n n @ [n]"
  by (simp add: upto_n_def nat_add_distrib)

lemma sp_diag_result:
  assumes "0 \<le> n"
  shows "sp_diag n = Inr (CRSSparsity_new n n (upto_n n) (upto_n (n + 1)))"
proof -
  have b: "diag_col_body = (\<lambda>i v. store v i i)" by (intro ext) (simp add: diag_col_body_def)
  have c: "for_each diag_col_body (upto_n n) (replicate (nat n) 0) = Inr (upto_n n)"
    unfolding b upto_n_def using store_loop[of "nat n" "replicate (nat n) 0" "\<lambda>i. i"] by simp
  have r: "replicate (nat (n + 1)) (0::int) = replicate (nat n) 0 @ [0]"
    using assms by (simp add: nat_add_distrib replicate_append_same)
  have cf: "copy_front (upto_n n) (replicate (nat (n + 1)) 0) = upto_n n @ [0]"
    unfolding copy_front_def r by simp
  have "(upto_n n @ [0])[nat n := n] = upto_n n @ [n]"
    by (simp add: list_update_append)
  then have s: "store (copy_front (upto_n n) (replicate (nat (n + 1)) 0)) n n = Inr (upto_n (n + 1))"
    unfolding cf upto_n_Suc[OF assms] using assms by (simp add: store_def)
  have v: "vector n 0 = Inr (replicate (nat n) 0)" "vector (n + 1) 0 = Inr (replicate (nat (n + 1)) 0)"
    using assms by (simp_all add: vector_def)
  show ?thesis
    unfolding sp_diag_def v using assms c s by simp
qed

lemma invariant_sp_diag:
  assumes "0 \<le> n"
  shows "invariant (CRSSparsity_new n n (upto_n n) (upto_n (n + 1)))"
proof -
  have "upto_n (n + 1) ! 0 = 0" using assms by (simp add: nth_upto_n)
  moreover have "upto_n (n + 1) ! nat n = n" using assms by (simp add: nth_upto_n)
  moreover have "\<forall>c \<in> set (upto_n n). 0 \<le> c \<and> c < n" by (simp add: set_upto_n)
  ultimately show ?thesis
    unfolding invariant_def using assms sorted_upto_n[of "n + 1"]
    by (simp add: CRSSparsity_new_def)
qed

lemma sp_band_result:
  assumes "0 \<le> n" "\<bar>p\<bar> < n"
  shows "sp_band n p = Inr (CRSSparsity_new n n (map (\<lambda>i. i + max p 0) (upto_n (n - \<bar>p\<bar>)))
            (map (\<lambda>i. max (min (i + min p 0) (n - \<bar>p\<bar>)) 0) (upto_n (n + 1))))"
proof -
  let ?nc = "n - \<bar>p\<bar>"
  have nc: "n - (if p < 0 then - p else p) = ?nc" by simp
  have b1: "band_col_body (max p 0) = (\<lambda>i v. store v i (i + max p 0))"
    by (intro ext) (simp add: band_col_body_def)
  have b2: "band_rowind_body (min p 0) ?nc = (\<lambda>i v. store v i (max (min (i + min p 0) ?nc) 0))"
    by (intro ext) (simp add: band_rowind_body_def)
  have c: "for_each (band_col_body (max p 0)) (upto_n ?nc) (replicate (nat ?nc) 0) =
             Inr (map (\<lambda>i. i + max p 0) (upto_n ?nc))"
    unfolding b1 upto_n_def
    using store_loop[of "nat ?nc" "replicate (nat ?nc) 0" "\<lambda>i. i + max p 0"] by (simp add: comp_def)
  have r: "for_each (band_rowind_body (min p 0) ?nc) (upto_n (n + 1)) (replicate (nat (n + 1)) 0) =
             Inr (map (\<lambda>i. max (min (i + min p 0) ?nc) 0) (upto_n (n + 1)))"
    unfolding b2 upto_n_def
    using store_loop[of "nat (n + 1)" "replicate (nat (n + 1)) 0" "\<lambda>i. max (min (i + min p 0) ?nc) 0"]
    by (simp add: comp_def)
  have v1: "vector ?nc 0 = Inr (replicate (nat ?nc) 0)" using assms by (simp add: vector_def)
  have v2: "vector (n + 1) 0 = Inr (replicate (nat (n + 1)) 0)" using assms by (simp add: vector_def)
  have g: "(\<not> n \<ge> 0) = False" "(\<not> (if p < 0 then - p else p) < n) = False" using assms by auto
  show ?thesis
    unfolding sp_band_def g if_False nc Let_def v1 v2 sum.case c r ..
qed

lemma invariant_sp_band:
  assumes "0 \<le> n" "\<bar>p\<bar> < n"
  shows "invariant (CRSSparsity_new n n (map (\<lambda>i. i + max p 0) (upto_n (n - \<bar>p\<bar>)))
            (map (\<lambda>i. max (min (i + min p 0) (n - \<bar>p\<bar>)) 0) (upto_n (n + 1))))"
proof -
  let ?nc = "n - \<bar>p\<bar>"
  let ?f = "\<lambda>i. max (min (i + min p 0) ?nc) 0"
  have mono: "\<And>x y. x \<le> y \<Longrightarrow> ?f x \<le> ?f y" by (auto simp: max_def min_def)
  have "sorted_wrt (\<lambda>x y. ?f x \<le> ?f y) (upto_n (n + 1))"
    by (rule sorted_wrt_mono_rel[OF _ sorted_upto_n[of "n + 1"]]) (rule mono)
  then have s: "sorted (map ?f (upto_n (n + 1)))"
    by (simp add: sorted_map)
  have u0: "upto_n (n + 1) ! 0 = 0" using assms by (simp add: nth_upto_n)
  have f0: "?f 0 = 0" using assms by (auto simp: max_def min_def)
  have "map ?f (upto_n (n + 1)) ! 0 = ?f (upto_n (n + 1) ! 0)"
    using assms by (intro nth_map) simp
  then have z: "map ?f (upto_n (n + 1)) ! 0 = 0" by (simp only: u0 f0)
  have un: "upto_n (n + 1) ! nat n = n" using assms by (simp add: nth_upto_n)
  have fn: "?f n = ?nc" using assms by (auto simp: max_def min_def)
  have "map ?f (upto_n (n + 1)) ! nat n = ?f (upto_n (n + 1) ! nat n)"
    using assms by (intro nth_map) simp
  then have e: "map ?f (upto_n (n + 1)) ! nat n = ?nc" by (simp only: un fn)
  have "int (length (map (\<lambda>i. i + max p 0) (upto_n ?nc))) = ?nc" using assms by simp
  then have l: "map ?f (upto_n (n + 1)) ! nat n = int (length (map (\<lambda>i. i + max p 0) (upto_n ?nc)))"
    by (simp only: e)
  have c: "\<forall>c \<in> set (map (\<lambda>i. i + max p 0) (upto_n ?nc)). 0 \<le> c \<and> c < n"
    using assms by (auto simp: set_upto_n)
  have len: "int (length (map ?f (upto_n (n + 1)))) = n + 1" using assms by simp
  show ?thesis
    unfolding invariant_def CRSSparsity_new_def CRSSparsity.simps
    using assms(1) s z l c len by blast
qed

lemma tri_less:
  assumes "0 \<le> (n::int)" "int i < n * (n + 1) div 2" "0 \<le> t" "c * (c + 1) + 2 * t = 2 * int i" "0 \<le> c"
  shows "c < n"
proof (rule ccontr)
  assume "\<not> c < n"
  then have cn: "n \<le> c" by simp
  define A where "A = n * (n + 1)"
  define B where "B = c * (c + 1)"
  have 1: "A \<le> B" unfolding A_def B_def using cn assms(1) by (intro mult_mono) auto
  have 2: "int i < A div 2" using assms(2) unfolding A_def .
  have 3: "B + 2 * t = 2 * int i" using assms(4) unfolding B_def .
  have "2 * (A div 2) \<le> A" by presburger
  then show False using 1 2 3 assms(3) by linarith
qed

lemma tril_col_loop:
  assumes "0 \<le> n"
  shows "\<exists>col t c. for_each tril_col_body (upto_n (n * (n + 1) div 2))
                     (replicate (nat (n * (n + 1) div 2)) 0, 0, 0) = Inr (col, t, c) \<and>
           length col = nat (n * (n + 1) div 2) \<and> (\<forall>x \<in> set col. 0 \<le> x \<and> x < n)"
proof -
  let ?N = "n * (n + 1) div 2"
  let ?I = "\<lambda>i s. case s of (col, t, c) \<Rightarrow> length col = nat ?N \<and> 0 \<le> t \<and> t \<le> c \<and>
               c * (c + 1) + 2 * t = 2 * int i \<and> (\<forall>x \<in> set col. 0 \<le> x \<and> x < n)"
  have init: "?I 0 (replicate (nat ?N) 0, 0, 0)"
  proof -
    have "0 < nat ?N \<Longrightarrow> 0 < n"
    proof (rule ccontr)
      assume a: "0 < nat ?N" "\<not> 0 < n"
      then have "n = 0" using assms by simp
      then show False using a(1) by simp
    qed
    then show ?thesis by auto
  qed
  have "\<exists>s'. for_each tril_col_body (map int [0..<nat ?N]) (replicate (nat ?N) 0, 0, 0) = Inr s' \<and>
          ?I (nat ?N) s'"
  proof (rule for_each_upto_invariant[where P = ?I, OF init])
    fix i s assume i: "i < nat ?N" and s: "?I i s"
    obtain col t c where [simp]: "s = (col, t, c)" by (cases s)
    have inv: "length col = nat ?N" "0 \<le> t" "t \<le> c" "c * (c + 1) + 2 * t = 2 * int i"
      "\<forall>x \<in> set col. 0 \<le> x \<and> x < n"
      using s by auto
    have iN: "int i < ?N" using i by linarith
    have cn: "c < n" using tri_less[OF assms iN inv(2,4)] inv(2,3) by simp
    have st: "store col (int i) t = Inr (col[i := t])" using i inv(1) by (simp add: store_nth)
    have setc: "\<forall>x \<in> set (col[i := t]). 0 \<le> x \<and> x < n"
      using inv(2,3,5) cn set_update_subset_insert[of col i t] by fastforce
    show "\<exists>s'. tril_col_body (int i) s = Inr s' \<and> ?I (Suc i) s'"
    proof (cases "t + 1 > c")
      case True
      then have tc: "t = c" using inv(3) by simp
      have "(c + 1) * (c + 1 + 1) + 2 * 0 = 2 * int (Suc i)"
        using inv(4) tc by (simp add: algebra_simps)
      then show ?thesis using True st setc inv(1,2,3)
        by (simp add: tril_col_body_def)
    next
      case False
      have "c * (c + 1) + 2 * (t + 1) = 2 * int (Suc i)" using inv(4) by simp
      then show ?thesis using False st setc inv(1,2)
        by (simp add: tril_col_body_def)
    qed
  qed
  then show ?thesis unfolding upto_n_def by auto
qed

lemma tril_rowind_loop:
  assumes "0 \<le> n" "n * (n + 1) < 2 ^ 31"
  shows "\<exists>rowind c. for_each tril_rowind_body (map (\<lambda>i. i + 1) (upto_n n))
                     (replicate (nat (n + 1)) 0, 0) = Inr (rowind, c) \<and>
           length rowind = nat (n + 1) \<and>
           (\<forall>k \<le> nat n. 2 * rowind ! k = int k * (int k + 1))"
proof -
  let ?J = "\<lambda>j s. case s of (rowind, c) \<Rightarrow> length rowind = nat (n + 1) \<and> c = int j \<and>
               (\<forall>k \<le> j. 2 * rowind ! k = int k * (int k + 1))"
  have "\<exists>s'. for_each (\<lambda>i. tril_rowind_body (i + 1)) (map int [0..<nat n]) (replicate (nat (n + 1)) 0, 0) = Inr s' \<and>
          ?J (nat n) s'"
  proof (rule for_each_upto_invariant[where P = ?J])
    show "?J 0 (replicate (nat (n + 1)) 0, 0)" using assms by simp
  next
    fix j s assume j: "j < nat n" and s: "?J j s"
    obtain rowind c where [simp]: "s = (rowind, c)" by (cases s)
    have inv: "length rowind = nat (n + 1)" "c = int j" "\<forall>k \<le> j. 2 * rowind ! k = int k * (int k + 1)"
      using s by auto
    have jl: "j < length rowind" "Suc j < length rowind" using j inv(1) by auto
    have ld: "load rowind (int j + 1 - 1) = Inr (rowind ! j)" using jl by (simp add: load_nth)
    have tw: "2 * (rowind ! j + 1 + int j) = (int j + 1) * (int j + 1 + 1)"
      using inv(3) by (simp add: algebra_simps)
    have "(int j + 1) * (int j + 1 + 1) \<le> n * (n + 1)" using j by (intro mult_mono) auto
    then have "2 * (rowind ! j + 1 + int j) < 2 ^ 31" using tw assms(2) by linarith
    moreover have "0 \<le> 2 * (rowind ! j + 1 + int j)" unfolding tw by simp
    ultimately have wr: "int32 (rowind ! j + 1 + int j) = rowind ! j + 1 + int j"
      by (intro int32_id) auto
    have st: "store rowind (int j + 1) (rowind ! j + 1 + int j) = Inr (rowind[Suc j := rowind ! j + 1 + int j])"
      using store_nth[OF jl(2), of "rowind ! j + 1 + int j"] by (simp add: add.commute)
    have body: "tril_rowind_body (int j + 1) s = Inr (rowind[Suc j := rowind ! j + 1 + int j], int j + 1)"
      unfolding tril_rowind_body_def using ld st inv(2) wr by simp
    have "\<forall>k \<le> Suc j. 2 * (rowind[Suc j := rowind ! j + 1 + int j]) ! k = int k * (int k + 1)"
    proof (intro allI impI)
      fix k assume k: "k \<le> Suc j"
      show "2 * (rowind[Suc j := rowind ! j + 1 + int j]) ! k = int k * (int k + 1)"
      proof (cases "k = Suc j")
        case True
        have "2 * rowind ! j = int j * (int j + 1)" using inv(3) by simp
        then show ?thesis using True jl by (simp add: algebra_simps)
      next
        case False
        then have "k \<le> j" using k by simp
        then show ?thesis using inv(3) False by simp
      qed
    qed
    then show "\<exists>s'. tril_rowind_body (int j + 1) s = Inr s' \<and> ?J (Suc j) s'"
      using body inv(1) by simp
  qed
  then show ?thesis unfolding for_each_map upto_n_def by auto
qed

lemma sp_tril_invariant:
  assumes "0 \<le> n" "n * (n + 1) < 2 ^ 31"
  shows "\<exists>p. sp_tril n = Inr p \<and> invariant p \<and> size1 p = n \<and> size2 p = n"
proof -
  let ?N = "n * (n + 1) div 2"
  have N0: "0 \<le> n * (n + 1)" using assms by (intro mult_nonneg_nonneg) auto
  have wn: "int32 (n * (n + 1)) = n * (n + 1)" using N0 assms(2) by (intro int32_id) auto
  have cd: "cdiv (int32 (n * (n + 1))) 2 = ?N" unfolding wn using N0 by (simp add: cdiv_nonneg)
  have Nn: "0 \<le> ?N" using N0 by simp
  obtain col t c where col: "for_each tril_col_body (upto_n ?N) (replicate (nat ?N) 0, 0, 0) = Inr (col, t, c)"
    "length col = nat ?N" "\<forall>x \<in> set col. 0 \<le> x \<and> x < n"
    using tril_col_loop[OF assms(1)] by blast
  obtain rowind c' where rw: "for_each tril_rowind_body (map (\<lambda>i. i + 1) (upto_n n))
                     (replicate (nat (n + 1)) 0, 0) = Inr (rowind, c')"
    "length rowind = nat (n + 1)" "\<forall>k \<le> nat n. 2 * rowind ! k = int k * (int k + 1)"
    using tril_rowind_loop[OF assms] by blast
  have nl: "\<not> ?N < 0" using Nn by linarith
  have v1: "vector ?N 0 = Inr (replicate (nat ?N) 0)"
    unfolding vector_def using nl by (rule if_not_P)
  have v2: "vector (n + 1) 0 = Inr (replicate (nat (n + 1)) 0)"
    using assms by (simp add: vector_def)
  note v = v1 v2
  have run: "sp_tril n = Inr (CRSSparsity_new n n col rowind)"
    unfolding sp_tril_def cd v using assms col(1) rw(1) by simp
  have z: "rowind ! 0 = 0" using rw(3) by force
  have srt: "sorted rowind"
    unfolding sorted_iff_nth_Suc
  proof (intro allI impI)
    fix i assume "Suc i < length rowind"
    then have i: "Suc i \<le> nat n" using rw(2) assms by (simp add: nat_add_distrib)
    have "2 * rowind ! i = int i * (int i + 1)" "2 * rowind ! Suc i = int (Suc i) * (int (Suc i) + 1)"
      using rw(3) i by auto
    then have "2 * rowind ! Suc i = 2 * rowind ! i + 2 * (int i + 1)" by (simp add: algebra_simps)
    then show "rowind ! i \<le> rowind ! Suc i" by simp
  qed
  have "2 * rowind ! nat n = n * (n + 1)" using rw(3) assms by simp
  moreover have "even (n * (n + 1))" by simp
  ultimately have "rowind ! nat n = ?N" by (metis nonzero_mult_div_cancel_left zero_neq_numeral)
  then have last: "rowind ! nat n = int (length col)" using col(2) Nn by simp
  have "invariant (CRSSparsity_new n n col rowind)"
    unfolding invariant_def CRSSparsity_new_def using assms rw(2) srt z last col(3) by simp
  then show ?thesis using run by (simp add: CRSSparsity_new_def)
qed

lemma length_concat_replicate: "length (concat (replicate k xs)) = k * length xs"
  by (induction k) auto

lemma length_concat_map_replicate: "length (concat (map (replicate c) xs)) = c * length xs"
  by (induction xs) auto

lemma sp_rowcol_invariant:
  assumes "0 \<le> nrow" "sorted row" "\<forall>r \<in> set row. 0 \<le> r \<and> r < nrow"
    and "\<forall>c \<in> set col. 0 \<le> c \<and> c < ncol"
  shows "\<exists>p. sp_rowcol row col nrow ncol = Inr p \<and> invariant p"
proof -
  let ?R = "concat (map (replicate (length col)) row)" and ?C = "concat (replicate (length row) col)"
  have "\<forall>r \<in> set ?R. 0 \<le> r \<and> r < nrow" using assms(3) by auto
  moreover have "length ?C = length ?R"
    by (simp add: length_concat_replicate length_concat_map_replicate)
  moreover have "\<forall>c \<in> set ?C. 0 \<le> c \<and> c < ncol" using assms(4) by auto
  ultimately have "invariant (CRSSparsity_new nrow ncol ?C (offsets ?R nrow))"
    by (intro invariant_offsets[OF assms(1)])
  then show ?thesis using sp_rowcol_sorted[OF assms(1,2,3), of col ncol] by simp
qed

lemma sp_NZ_invariant:
  assumes "0 \<le> nrow" "length row = length col" "sorted row" "\<forall>r \<in> set row. 0 \<le> r \<and> r < nrow"
    and "\<forall>c \<in> set col. 0 \<le> c \<and> c < ncol"
  shows "\<exists>p. sp_NZ row col nrow ncol True = Inr p \<and> invariant p"
  using sp_NZ_sorted[OF assms(1,2,3,4), of ncol]
    invariant_offsets[OF assms(1,4) assms(2)[symmetric] assms(5)] by simp

lemma sp_triplet_invariant:
  assumes "0 \<le> nrow" "0 \<le> ncol" "length row = length col"
    and "\<forall>r \<in> set row. 0 \<le> r \<and> r < nrow" "\<forall>c \<in> set col. 0 \<le> c \<and> c < ncol"
  shows "\<exists>p. sp_triplet nrow ncol row col srt = Inr p \<and> invariant p"
proof (cases srt)
  case True
  have T: "tracked nrow ncol row col
      (CRSSparsity_new nrow ncol (map (\<lambda>k. col ! nat k) (scattered nrow row)) (offsets row nrow))
      (scattered nrow row)"
    by (rule tracked_scattered[OF assms(1,4)])
  have s: "srt = True" using True by simp
  show ?thesis
    unfolding sp_triplet_def s sp_triplet_hint_true[OF assms(1,3,4)]
    using tracked_invariant[OF T assms(1,4,3,5)] by simp
next
  case False
  obtain ret M where r: "sp_triplet_mapping nrow ncol row col [] False = Inr (ret, M)"
    "tracked nrow ncol row col ret M"
    using sp_triplet_hint_false[OF assms, of "[]"] by blast
  have s: "srt = False" using False by simp
  show ?thesis
    unfolding sp_triplet_def s r(1)
    using tracked_invariant[OF r(2) assms(1,4,3,5)] by simp
qed

lemma sp_dense_invariant:
  assumes "0 \<le> n" "0 \<le> m" "n * m < 2 ^ 31"
  shows "\<exists>q. sp_dense n m = Inr q \<and> invariant q"
proof -
  let ?col = "concat (replicate (nat n) (upto_n m))"
  let ?rw = "map (\<lambda>i. int32 (i * m)) (upto_n (n + 1))"
  have w: "int32 (int i * m) = int i * m" if "i \<le> nat n" for i
  proof -
    have "int i * m \<le> n * m" using that assms(1,2) by (intro mult_right_mono) auto
    moreover have "0 \<le> int i * m" using assms(2) by simp
    ultimately show ?thesis using assms(3) by (intro int32_id) auto
  qed
  have nth: "?rw ! i = int i * m" if "i \<le> nat n" for i
  proof -
    have "i < nat (n + 1)" using that assms(1) by simp
    then show ?thesis using w[OF that] by (simp add: nth_upto_n)
  qed
  have len: "length ?rw = nat (n + 1)" by simp
  have srt: "sorted ?rw"
    unfolding sorted_iff_nth_Suc
  proof (intro allI impI)
    fix i assume "Suc i < length ?rw"
    then have i: "Suc i \<le> nat n" "i \<le> nat n" using assms(1) by (simp_all add: nat_add_distrib)
    have "int i * m \<le> int (Suc i) * m" using assms(2) by (intro mult_right_mono) auto
    then show "?rw ! i \<le> ?rw ! Suc i" unfolding nth[OF i(1)] nth[OF i(2)] .
  qed
  have z: "?rw ! 0 = 0" using nth[of 0] by simp
  have "length ?col = nat n * nat m" by (simp add: length_concat_replicate)
  then have "int (length ?col) = n * m" using assms(1,2) by simp
  then have last: "?rw ! nat n = int (length ?col)" using nth[of "nat n"] assms(1) by simp
  have cs: "\<forall>c \<in> set ?col. 0 \<le> c \<and> c < m" by (auto simp: set_upto_n)
  have "invariant (CRSSparsity_new n m ?col ?rw)"
    unfolding invariant_def CRSSparsity_new_def
    using assms(1) len srt z last cs by (simp del: upto_n_def)
  then show ?thesis using assms(1,2) by (simp add: sp_dense_def CRSSparsity_dense_def)
qed

lemma sp_sparse_invariant:
  assumes "0 \<le> n" "0 \<le> m"
  shows "\<exists>q. sp_sparse n m = Inr q \<and> invariant q"
proof -
  have "invariant (CRSSparsity_new n m [] (replicate (nat (n + 1)) 0))"
    unfolding invariant_def CRSSparsity_new_def using assms(1) by (simp add: sorted_replicate)
  then show ?thesis using assms by (simp add: sp_sparse_def CRSSparsity_dense_def)
qed

text \<open>
  Claim C1, as the code has it.  The arguments are \<open>int\<close>s for which no size \<open>n + 1\<close> and no
  count of nonzeros leaves the 32-bit range.  Then \<open>sp_dense\<close> and \<open>sp_sparse\<close> (for
  non-negative dimensions), \<open>sp_tril\<close> and \<open>sp_diag\<close> (for \<open>n \<ge> 0\<close>) and \<open>sp_band\<close> (for
  \<open>n \<ge> 0\<close> and \<open>|p| < n\<close>) return a pattern, and it satisfies the invariant of the data model:
  non-decreasing row offsets that start at zero and end at the number of column indices,
  every column index in \<open>[0, ncol)\<close>.  \<open>sp_NZ\<close>, \<open>sp_rowcol\<close> and \<open>sp_triplet\<close> copy the caller's
  indices without comparing a column index with \<open>ncol\<close>; they return a pattern that satisfies
  the invariant when the row indices lie in \<open>[0, nrow)\<close> (and are non-decreasing for \<open>sp_NZ\<close>
  and \<open>sp_rowcol\<close>, as \<open>monotone\<close> promises) and the column indices lie in \<open>[0, ncol)\<close>.
\<close>

theorem constructors_invariant:
  fixes n m b nrow ncol :: int and row col :: "int list" and srt :: bool
  shows "(0 \<le> n \<and> n < 2 ^ 31 - 1 \<and> 0 \<le> m \<and> m < 2 ^ 31 \<and> n * m < 2 ^ 31 \<longrightarrow>
            (\<exists>q. sp_dense n m = Inr q \<and> invariant q)) \<and>
         (0 \<le> n \<and> n < 2 ^ 31 - 1 \<and> 0 \<le> m \<and> m < 2 ^ 31 \<longrightarrow>
            (\<exists>q. sp_sparse n m = Inr q \<and> invariant q)) \<and>
         (0 \<le> n \<and> n * (n + 1) < 2 ^ 31 \<longrightarrow> (\<exists>q. sp_tril n = Inr q \<and> invariant q)) \<and>
         (0 \<le> n \<and> n < 2 ^ 31 - 1 \<longrightarrow> (\<exists>q. sp_diag n = Inr q \<and> invariant q)) \<and>
         (0 \<le> n \<and> n < 2 ^ 31 - 1 \<and> \<bar>b\<bar> < n \<longrightarrow> (\<exists>q. sp_band n b = Inr q \<and> invariant q)) \<and>
         (0 \<le> nrow \<and> nrow < 2 ^ 31 - 1 \<and> ncol < 2 ^ 31 \<and> sorted row \<and>
            (\<forall>r \<in> set row. 0 \<le> r \<and> r < nrow) \<and> (\<forall>c \<in> set col. 0 \<le> c \<and> c < ncol) \<longrightarrow>
            (length row = length col \<and> int (length row) < 2 ^ 31 \<longrightarrow>
               (\<exists>q. sp_NZ row col nrow ncol True = Inr q \<and> invariant q)) \<and>
            (int (length row) * int (length col) < 2 ^ 31 \<longrightarrow>
               (\<exists>q. sp_rowcol row col nrow ncol = Inr q \<and> invariant q))) \<and>
         (0 \<le> nrow \<and> nrow < 2 ^ 31 - 1 \<and> 0 \<le> ncol \<and> ncol < 2 ^ 31 - 1 \<and>
            length row = length col \<and> int (length row) < 2 ^ 31 \<and>
            (\<forall>r \<in> set row. 0 \<le> r \<and> r < nrow) \<and> (\<forall>c \<in> set col. 0 \<le> c \<and> c < ncol) \<longrightarrow>
            (\<exists>q. sp_triplet nrow ncol row col srt = Inr q \<and> invariant q))"
proof (intro conjI impI)
  assume "0 \<le> n \<and> n < 2 ^ 31 - 1 \<and> 0 \<le> m \<and> m < 2 ^ 31 \<and> n * m < 2 ^ 31"
  then show "\<exists>q. sp_dense n m = Inr q \<and> invariant q" by (intro sp_dense_invariant) auto
next
  assume "0 \<le> n \<and> n < 2 ^ 31 - 1 \<and> 0 \<le> m \<and> m < 2 ^ 31"
  then show "\<exists>q. sp_sparse n m = Inr q \<and> invariant q" by (intro sp_sparse_invariant) auto
next
  assume "0 \<le> n \<and> n * (n + 1) < 2 ^ 31"
  then show "\<exists>q. sp_tril n = Inr q \<and> invariant q" using sp_tril_invariant[of n] by blast
next
  assume "0 \<le> n \<and> n < 2 ^ 31 - 1"
  then show "\<exists>q. sp_diag n = Inr q \<and> invariant q"
    using sp_diag_result[of n] invariant_sp_diag[of n] by simp
next
  assume "0 \<le> n \<and> n < 2 ^ 31 - 1 \<and> \<bar>b\<bar> < n"
  then show "\<exists>q. sp_band n b = Inr q \<and> invariant q"
    using sp_band_result[of n b] invariant_sp_band[of n b] by simp
next
  assume a: "0 \<le> nrow \<and> nrow < 2 ^ 31 - 1 \<and> ncol < 2 ^ 31 \<and> sorted row \<and>
            (\<forall>r \<in> set row. 0 \<le> r \<and> r < nrow) \<and> (\<forall>c \<in> set col. 0 \<le> c \<and> c < ncol)"
    and l: "length row = length col \<and> int (length row) < 2 ^ 31"
  show "\<exists>q. sp_NZ row col nrow ncol True = Inr q \<and> invariant q"
    using a l by (intro sp_NZ_invariant) auto
next
  assume a: "0 \<le> nrow \<and> nrow < 2 ^ 31 - 1 \<and> ncol < 2 ^ 31 \<and> sorted row \<and>
            (\<forall>r \<in> set row. 0 \<le> r \<and> r < nrow) \<and> (\<forall>c \<in> set col. 0 \<le> c \<and> c < ncol)"
  show "\<exists>q. sp_rowcol row col nrow ncol = Inr q \<and> invariant q"
    using a by (intro sp_rowcol_invariant) auto
next
  assume a: "0 \<le> nrow \<and> nrow < 2 ^ 31 - 1 \<and> 0 \<le> ncol \<and> ncol < 2 ^ 31 - 1 \<and>
            length row = length col \<and> int (length row) < 2 ^ 31 \<and>
            (\<forall>r \<in> set row. 0 \<le> r \<and> r < nrow) \<and> (\<forall>c \<in> set col. 0 \<le> c \<and> c < ncol)"
  show "\<exists>q. sp_triplet nrow ncol row col srt = Inr q \<and> invariant q"
    using a by (intro sp_triplet_invariant) auto
qed

theorem constructors_invariant_witness:
  "(\<exists>q. sp_dense 2 3 = Inr q \<and> invariant q) \<and>
   sp_dense 2 3 = Inr \<lparr>size1 = 2, size2 = 3, colRef = [0, 1, 2, 0, 1, 2], rowindRef = [0, 3, 6]\<rparr> \<and>
   (\<exists>q. sp_sparse 2 3 = Inr q \<and> invariant q) \<and>
   sp_sparse 2 3 = Inr \<lparr>size1 = 2, size2 = 3, colRef = [], rowindRef = [0, 0, 0]\<rparr> \<and>
   (\<exists>q. sp_tril 3 = Inr q \<and> invariant q) \<and>
   (\<exists>q. sp_diag 3 = Inr q \<and> invariant q) \<and>
   (\<exists>q. sp_band 4 1 = Inr q \<and> invariant q) \<and>
   sp_band 4 1 = Inr \<lparr>size1 = 4, size2 = 4, colRef = [1, 2, 3], rowindRef = [0, 1, 2, 3, 3]\<rparr> \<and>
   (\<exists>q. sp_NZ [0, 0, 1] [0, 3, 1] 2 4 True = Inr q \<and> invariant q) \<and>
   (\<exists>q. sp_rowcol [0, 2] [0, 1] 3 2 = Inr q \<and> invariant q) \<and>
   (\<exists>q. sp_triplet 2 2 [1, 0, 1] [0, 1, 0] False = Inr q \<and> invariant q)"
proof -
  have de: "sp_dense 2 3 = Inr \<lparr>size1 = 2, size2 = 3, colRef = [0, 1, 2, 0, 1, 2], rowindRef = [0, 3, 6]\<rparr>"
    by code_simp
  have sp: "sp_sparse 2 3 = Inr \<lparr>size1 = 2, size2 = 3, colRef = [], rowindRef = [0, 0, 0]\<rparr>"
    by code_simp
  have b: "sp_band 4 1 = Inr \<lparr>size1 = 4, size2 = 4, colRef = [1, 2, 3], rowindRef = [0, 1, 2, 3, 3]\<rparr>"
    by code_simp
  have h0: "(0::int) \<le> 2 \<and> (2::int) < 2 ^ 31 - 1 \<and> (0::int) \<le> 3 \<and> (3::int) < 2 ^ 31 \<and> (2::int) * 3 < 2 ^ 31"
    by simp
  have ht: "(0::int) \<le> 3 \<and> (3::int) * (3 + 1) < 2 ^ 31" by simp
  have hd: "(0::int) \<le> 3 \<and> (3::int) < 2 ^ 31 - 1" by simp
  have hb: "(0::int) \<le> 4 \<and> (4::int) < 2 ^ 31 - 1 \<and> \<bar>1::int\<bar> < 4" by simp
  have h1: "(0::int) \<le> 2 \<and> (2::int) < 2 ^ 31 - 1 \<and> (4::int) < 2 ^ 31 \<and> sorted [0, 0, 1 :: int] \<and>
            (\<forall>r \<in> set [0, 0, 1 :: int]. 0 \<le> r \<and> r < 2) \<and>
            (\<forall>c \<in> set [0, 3, 1 :: int]. 0 \<le> c \<and> c < 4)" by simp
  have l1: "length [0, 0, 1 :: int] = length [0, 3, 1 :: int] \<and> int (length [0, 0, 1 :: int]) < 2 ^ 31"
    by simp
  have h2: "(0::int) \<le> 3 \<and> (3::int) < 2 ^ 31 - 1 \<and> (2::int) < 2 ^ 31 \<and> sorted [0, 2 :: int] \<and>
            (\<forall>r \<in> set [0, 2 :: int]. 0 \<le> r \<and> r < 3) \<and>
            (\<forall>c \<in> set [0, 1 :: int]. 0 \<le> c \<and> c < 2)" by simp
  have l2: "int (length [0, 2 :: int]) * int (length [0, 1 :: int]) < 2 ^ 31" by simp
  have h3: "(0::int) \<le> 2 \<and> (2::int) < 2 ^ 31 - 1 \<and> (0::int) \<le> 2 \<and> (2::int) < 2 ^ 31 - 1 \<and>
            length [1, 0, 1 :: int] = length [0, 1, 0 :: int] \<and> int (length [1, 0, 1 :: int]) < 2 ^ 31 \<and>
            (\<forall>r \<in> set [1, 0, 1 :: int]. 0 \<le> r \<and> r < 2) \<and> (\<forall>c \<in> set [0, 1, 0 :: int]. 0 \<le> c \<and> c < 2)"
    by simp
  have 1: "\<exists>q. sp_dense 2 3 = Inr q \<and> invariant q"
    using constructors_invariant[where n = 2 and m = 3] h0 by blast
  have 2: "\<exists>q. sp_sparse 2 3 = Inr q \<and> invariant q"
    using constructors_invariant[where n = 2 and m = 3] h0 by blast
  have 3: "\<exists>q. sp_tril 3 = Inr q \<and> invariant q"
    using constructors_invariant[where n = 3] ht by blast
  have 4: "\<exists>q. sp_diag 3 = Inr q \<and> invariant q"
    using constructors_invariant[where n = 3] hd by blast
  have 5: "\<exists>q. sp_band 4 1 = Inr q \<and> invariant q"
    using constructors_invariant[where n = 4 and b = 1] hb by blast
  have 6: "\<exists>q. sp_NZ [0, 0, 1] [0, 3, 1] 2 4 True = Inr q \<and> invariant q"
    using constructors_invariant[where nrow = 2 and ncol = 4 and row = "[0, 0, 1]" and col = "[0, 3, 1]"] h1 l1
    by blast
  have 7: "\<exists>q. sp_rowcol [0, 2] [0, 1] 3 2 = Inr q \<and> invariant q"
    using constructors_invariant[where nrow = 3 and ncol = 2 and row = "[0, 2]" and col = "[0, 1]"] h2 l2
    by blast
  have 8: "\<exists>q. sp_triplet 2 2 [1, 0, 1] [0, 1, 0] False = Inr q \<and> invariant q"
    using constructors_invariant[where nrow = 2 and ncol = 2 and row = "[1, 0, 1]" and col = "[0, 1, 0]" and srt = False] h3
    by blast
  show ?thesis using 1 2 3 4 5 6 7 8 de sp b by blast
qed

text \<open>
  \<open>sp_NZ\<close> with the rows \<open>[2, 0]\<close> returns row offsets that decrease; \<open>sp_NZ\<close> with a row
  index \<open>-1\<close> returns row offsets that start at 1; \<open>sp_triplet\<close> and \<open>sp_NZ\<close> with the
  column index 5 and \<open>ncol = 1\<close> return that column index.  \<open>sp_rowcol\<close> does the same with
  the rows \<open>[2, 0]\<close>, the row \<open>-1\<close> and the column 5.  For \<open>n = 46341\<close> the product
  \<open>n * (n + 1)\<close> of \<open>sp_tril\<close> is no \<open>int\<close>: the vector of column indices gets a negative
  size and no pattern is returned.
\<close>

theorem constructors_invariant_counterexample:
  "sp_NZ [2, 0] [0, 0] 3 1 True =
     Inr \<lparr>size1 = 3, size2 = 1, colRef = [0, 0], rowindRef = [0, 1, 0, 2]\<rparr> \<and>
   \<not> sorted [0, 1, 0, 2 :: int] \<and>
   \<not> invariant \<lparr>size1 = 3, size2 = 1, colRef = [0, 0], rowindRef = [0, 1, 0, 2]\<rparr> \<and>
   sp_NZ [0, - 1] [0, 0] 1 1 True =
     Inr \<lparr>size1 = 1, size2 = 1, colRef = [0, 0], rowindRef = [1, 2]\<rparr> \<and>
   \<not> invariant \<lparr>size1 = 1, size2 = 1, colRef = [0, 0], rowindRef = [1, 2]\<rparr> \<and>
   sp_triplet 1 1 [0] [5] True = Inr \<lparr>size1 = 1, size2 = 1, colRef = [5], rowindRef = [0, 1]\<rparr> \<and>
   sp_NZ [0] [5] 1 1 True = Inr \<lparr>size1 = 1, size2 = 1, colRef = [5], rowindRef = [0, 1]\<rparr> \<and>
   \<not> invariant \<lparr>size1 = 1, size2 = 1, colRef = [5], rowindRef = [0, 1]\<rparr> \<and>
   sp_rowcol [2, 0] [0] 3 1 =
     Inr \<lparr>size1 = 3, size2 = 1, colRef = [0, 0], rowindRef = [0, 2, 0, 2]\<rparr> \<and>
   \<not> invariant \<lparr>size1 = 3, size2 = 1, colRef = [0, 0], rowindRef = [0, 2, 0, 2]\<rparr> \<and>
   sp_rowcol [- 1] [0] 1 1 = Inr \<lparr>size1 = 1, size2 = 1, colRef = [0], rowindRef = [1, 1]\<rparr> \<and>
   \<not> invariant \<lparr>size1 = 1, size2 = 1, colRef = [0], rowindRef = [1, 1]\<rparr> \<and>
   sp_rowcol [0] [5] 1 1 = Inr \<lparr>size1 = 1, size2 = 1, colRef = [5], rowindRef = [0, 1]\<rparr> \<and>
   int32 (46341 * (46341 + 1)) = - 2147432674 \<and>
   sp_tril 46341 = Inl UndefinedBehaviour"
  by code_simp

section \<open>\<open>casadi_qr\<close> computes the algorithm of the spec\<close>



lemma frame_refl: "frame c marks marks"
  by (simp add: frame_def)

lemma frame_trans: "frame c a b \<Longrightarrow> frame c b d \<Longrightarrow> frame c a d"
  unfolding frame_def by (metis)











lemma for_each_frame:
  assumes "for_each body xs s = Inr s'"
    and "\<And>x s s'. x \<in> set xs \<Longrightarrow> body x s = Inr s' \<Longrightarrow> frame c (fst s) (fst s')"
  shows "frame c (fst s) (fst s')"
  using assms
proof (induction xs arbitrary: s)
  case Nil
  then show ?case by (simp add: frame_refl)
next
  case (Cons x xs)
  from Cons.prems(1) obtain s1 where s1: "body x s = Inr s1" "for_each body xs s1 = Inr s'"
    by (auto split: sum.splits)
  have f1: "frame c (fst s) (fst s1)" using Cons.prems(2)[OF list.set_intros(1) s1(1)] .
  have "frame c (fst s1) (fst s')"
  proof (rule Cons.IH[OF s1(2)])
    show "\<And>y u u'. y \<in> set xs \<Longrightarrow> body y u = Inr u' \<Longrightarrow> frame c (fst u) (fst u')"
      by (rule Cons.prems(2)[OF list.set_intros(2)])
  qed
  then show ?case using f1 frame_trans by blast
qed




















section \<open>The error of \<open>sp_rowcol\<close>\<close>

lemma sp_rowcol_ok:
  assumes "0 \<le> nrow" "\<forall>r \<in> set row. - 1 \<le> r \<and> r < nrow"
  shows "\<exists>rowind. sp_rowcol row col nrow ncol =
            Inr (CRSSparsity_new nrow ncol (concat (replicate (length row) col)) rowind)"
proof -
  let ?r0 = "replicate (nat (nrow + 1)) (0::int)"
  have v: "vector (nrow + 1) 0 = Inr ?r0" using assms(1) by (simp add: vector_def)
  have s: "store ?r0 0 0 = Inr ?r0" using assms(1) by (simp add: store_def list_update_same_conv)
  have len: "int (length ?r0) = nrow + 1" using assms(1) by simp
  obtain rw z' where rw: "for_each (rowcol_body (int (length col))) row (?r0, 0, 0) = Inr (rw, int (length col) * int (length row), z')"
    "length rw = length ?r0" "0 \<le> z'" "z' \<le> nrow"
    using for_each_fill_body_ok[where rowind = ?r0 and nrow = nrow and z = 0 and row = row
        and e = RowcolOutOfRange and v = "\<lambda>cnt. cnt + int (length col)" and d = "int (length col)" and cnt = 0]
      len assms
    unfolding rowcol_body_fill by auto
  obtain rw' where "fill_at RowcolOutOfRange nrow (int (length col) * int (length row)) (rw, z') = Inr (rw', max z' nrow)"
    using fill_at_ok[of z' nrow rw RowcolOutOfRange "int (length col) * int (length row)"] rw(2-4) len by auto
  then show ?thesis
    by (auto simp: sp_rowcol_def v s rw(1))
qed

lemma sp_rowcol_err:
  assumes "0 \<le> nrow" "\<not> (\<forall>r \<in> set row. - 1 \<le> r \<and> r < nrow)"
  shows "sp_rowcol row col nrow ncol = Inl RowcolOutOfRange"
proof -
  let ?r0 = "replicate (nat (nrow + 1)) (0::int)"
  have v: "vector (nrow + 1) 0 = Inr ?r0" using assms(1) by (simp add: vector_def)
  have s: "store ?r0 0 0 = Inr ?r0" using assms(1) by (simp add: store_def list_update_same_conv)
  have len: "int (length ?r0) = nrow + 1" using assms(1) by simp
  have "for_each (rowcol_body (int (length col))) row (?r0, 0, 0) = Inl RowcolOutOfRange"
    using for_each_fill_body_err[where rowind = ?r0 and nrow = nrow and z = 0 and row = row] len assms
    unfolding rowcol_body_fill by auto
  then show ?thesis
    by (simp add: sp_rowcol_def v s)
qed

text \<open>
  Claim C9, as the code has it.  With a non-negative \<open>nrow\<close>, \<open>sp_rowcol\<close> raises its
  out-of-range error exactly when some entry of the row list is at least \<open>nrow\<close> or below
  \<open>-1\<close>: the only check is the bounds check of \<open>rowind.at\<close>.  Every row list with entries
  in \<open>[-1, nrow)\<close>, hence every strictly increasing one with entries in \<open>[0, nrow)\<close>,
  yields a pattern; the order of the entries is never examined.
\<close>

theorem sp_rowcol_raises_iff:
  assumes "0 \<le> nrow"
  shows "(sp_rowcol row col nrow ncol = Inl RowcolOutOfRange \<longleftrightarrow> (\<exists>r \<in> set row. r < - 1 \<or> nrow \<le> r)) \<and>
         ((\<forall>r \<in> set row. - 1 \<le> r \<and> r < nrow) \<longrightarrow> (\<exists>p. sp_rowcol row col nrow ncol = Inr p))"
proof (cases "\<forall>r \<in> set row. - 1 \<le> r \<and> r < nrow")
  case True
  then show ?thesis using sp_rowcol_ok[OF assms True, of col ncol] by auto
next
  case False
  then have "\<exists>r \<in> set row. r < - 1 \<or> nrow \<le> r" by fastforce
  then show ?thesis using sp_rowcol_err[OF assms False, of col ncol] False by simp
qed

theorem sp_rowcol_raises_iff_witness:
  "sp_rowcol [0, 2] [0, 1] 3 2 \<noteq> Inl RowcolOutOfRange \<and>
   (\<exists>p. sp_rowcol [0, 2] [0, 1] 3 2 = Inr p) \<and>
   sp_rowcol [0, 3] [0, 1] 3 2 = Inl RowcolOutOfRange"
  using sp_rowcol_raises_iff[of 3 "[0, 2]" "[0, 1]" 2] sp_rowcol_raises_iff[of 3 "[0, 3]" "[0, 1]" 2]
  by simp

text \<open>
  The row list \<open>[1, 0]\<close> is not strictly increasing and is accepted; the row list
  \<open>[-2, 0]\<close> is strictly increasing with every entry below \<open>nrow\<close> and is rejected.
\<close>

theorem sp_rowcol_not_increasing_accepted:
  "sp_rowcol [1, 0] [0] 2 1 = Inr \<lparr>size1 = 2, size2 = 1, colRef = [0, 0], rowindRef = [0, 2, 2]\<rparr> \<and>
   \<not> sorted_wrt (<) [1, 0 :: int] \<and>
   sp_rowcol [- 2, 0] [0] 1 1 = Inl RowcolOutOfRange \<and> sorted_wrt (<) [- 2, 0 :: int]"
  by code_simp

end
